theory Spec2Isabelle
  imports Main
begin

section \<open>Arrays and Python indexing\<close>

text \<open>
  The notebook works on one-dimensional NumPy integer arrays. An array is a list of
  integers. An index \<open>i\<close> with \<open>0 \<le> i < len\<close> addresses cell \<open>i\<close>, an index with
  \<open>-len \<le> i < 0\<close> wraps around to cell \<open>len + i\<close> (NumPy and Numba both do that),
  and every other index raises \<open>IndexError\<close>, as NumPy does. Code compiled by Numba
  checks the bounds only when it is asked to; an access out of bounds is then
  undefined, and the model takes the checked behaviour.

  The exceptions: \<open>IndexError\<close> of an array access, \<open>RuntimeError\<close> (maximum recursion
  depth exceeded) of a call, \<open>UnboundLocalError\<close> of a local name that was never
  assigned.
\<close>

datatype error = IndexError | RuntimeError | UnboundLocalError

type_synonym 'a result = "error + 'a"

type_synonym array = "int list"

definition rbind :: "'a result \<Rightarrow> ('a \<Rightarrow> 'b result) \<Rightarrow> 'b result" where
  "rbind x f = (case x of Inl e \<Rightarrow> Inl e | Inr v \<Rightarrow> f v)"

definition wrap_index :: "nat \<Rightarrow> int \<Rightarrow> nat option" where
  "wrap_index len i =
     (if 0 \<le> i \<and> i < int len then Some (nat i)
      else if i < 0 \<and> - int len \<le> i then Some (nat (int len + i))
      else None)"

definition getitem :: "array \<Rightarrow> int \<Rightarrow> int result" where
  "getitem a i = (case wrap_index (length a) i of
                    None \<Rightarrow> Inl IndexError
                  | Some j \<Rightarrow> Inr (a ! j))"

definition setitem :: "array \<Rightarrow> int \<Rightarrow> int \<Rightarrow> array result" where
  "setitem a i v = (case wrap_index (length a) i of
                      None \<Rightarrow> Inl IndexError
                    | Some j \<Rightarrow> Inr (a[j := v]))"

text \<open>\<open>range(a, b)\<close> and \<open>numpy.zeros(n)\<close>.\<close>

definition py_range :: "int \<Rightarrow> int \<Rightarrow> int list" where
  "py_range a b = [a..b - 1]"

definition zeros :: "nat \<Rightarrow> array" where
  "zeros n = replicate n 0"

text \<open>A \<open>for\<close> loop without \<open>break\<close>: the body runs once per element, the first
  exception ends the loop.\<close>

fun for_loop :: "'i list \<Rightarrow> ('i \<Rightarrow> 's \<Rightarrow> 's result) \<Rightarrow> 's \<Rightarrow> 's result" where
  "for_loop [] body st = Inr st"
| "for_loop (i # is) body st =
     (case body i st of Inl e \<Rightarrow> Inl e | Inr st' \<Rightarrow> for_loop is body st')"


section \<open>The adjacency builder \<open>_calculate_temp_arrays\<close>\<close>

text \<open>First loop: \<open>nd[r[i]] += 1\<close>.\<close>

definition nd_step :: "array \<Rightarrow> int \<Rightarrow> array \<Rightarrow> array result" where
  "nd_step r i nd =
     rbind (getitem r i) (\<lambda>ri.
     rbind (getitem nd ri) (\<lambda>c.
     setitem nd ri (c + 1)))"

text \<open>Second loop: \<open>delta[i] = delta[i + 1] - nd[i]\<close>.\<close>

definition delta_step :: "array \<Rightarrow> int \<Rightarrow> array \<Rightarrow> array result" where
  "delta_step nd i delta =
     rbind (getitem delta (i + 1)) (\<lambda>d.
     rbind (getitem nd i) (\<lambda>c.
     setitem delta i (d - c)))"

text \<open>Third loop: \<open>ri = r[i]; D[delta[ri] + w[ri]] = i; w[ri] += 1\<close>.\<close>

definition D_step :: "array \<Rightarrow> array \<Rightarrow> int \<Rightarrow> array \<times> array \<Rightarrow> (array \<times> array) result" where
  "D_step r delta i Dw =
     (case Dw of (D, w) \<Rightarrow>
     rbind (getitem r i) (\<lambda>ri.
     rbind (getitem delta ri) (\<lambda>d.
     rbind (getitem w ri) (\<lambda>c.
     rbind (setitem D (d + c) i) (\<lambda>D'.
     rbind (getitem w ri) (\<lambda>c'.
     rbind (setitem w ri (c' + 1)) (\<lambda>w'.
     Inr (D', w'))))))))"

text \<open>The function mutates \<open>nd\<close>, \<open>delta\<close>, \<open>D\<close> and \<open>w\<close> in place; the model returns
  the four arrays as they are when the function returns.\<close>

definition calculate_temp_arrays ::
  "array \<Rightarrow> array \<Rightarrow> array \<Rightarrow> array \<Rightarrow> array \<Rightarrow> (array \<times> array \<times> array \<times> array) result" where
  "calculate_temp_arrays r nd delta D w =
     (let np = int (length r) in
      rbind (for_loop (py_range 0 np) (nd_step r) nd) (\<lambda>nd1.
      rbind (setitem delta np np) (\<lambda>delta1.
      rbind (for_loop (rev (py_range 0 np)) (delta_step nd1) delta1) (\<lambda>delta2.
      rbind (for_loop (py_range 0 np) (D_step r delta2) (D, w)) (\<lambda>Dw.
      Inr (nd1, delta2, fst Dw, snd Dw))))))"


section \<open>The recursive stack builder \<open>_build_stack\<close>\<close>

text \<open>
  The first argument is the number of nested calls of \<open>_build_stack\<close> that the
  interpreter still allows (\<open>sys.getrecursionlimit\<close> less the frames in use): a call
  with none left raises \<open>RuntimeError\<close>. The array \<open>s\<close> is mutated in place, so it
  is returned together with \<open>inc\<close>.
\<close>

primrec build_stack ::
  "nat \<Rightarrow> int \<Rightarrow> array \<Rightarrow> array \<Rightarrow> array \<times> int \<Rightarrow> (array \<times> int) result" where
  "build_stack 0 n D delta st = Inl RuntimeError"
| "build_stack (Suc k) n D delta st =
     rbind (setitem (fst st) (snd st) n) (\<lambda>s1.
     rbind (getitem delta n) (\<lambda>lo.
     rbind (getitem delta (n + 1)) (\<lambda>hi.
     for_loop (py_range lo hi)
       (\<lambda>i st'. rbind (getitem D i) (\<lambda>m.
          if m \<noteq> n then build_stack k m D delta (fst st', snd st' + 1)
          else Inr st'))
       (s1, snd st))))"


section \<open>The iterative stack builder \<open>_build_stack_nr\<close>\<close>

text \<open>
  The inner \<open>for\<close> loop with its \<open>break\<close>: it scans the donor positions and stops at
  the first donor \<open>m\<close> whose stamp differs from \<open>b\<close>. The result holds \<open>s\<close>,
  \<open>stack_id\<close>, \<open>inc\<close> and \<open>Some m\<close> when \<open>mv_upstream\<close> was set, \<open>None\<close> otherwise.
\<close>

fun scan_donors ::
  "int \<Rightarrow> array \<Rightarrow> int list \<Rightarrow> array \<times> array \<times> int
     \<Rightarrow> ((array \<times> array \<times> int) \<times> int option) result" where
  "scan_donors b D [] st = Inr (st, None)"
| "scan_donors b D (i # is) st =
     (case st of (s, stack_id, inc) \<Rightarrow>
     rbind (getitem D i) (\<lambda>m.
     rbind (getitem stack_id m) (\<lambda>sid.
     if sid \<noteq> b then
       rbind (setitem s (inc + 1) m) (\<lambda>s'.
       rbind (setitem stack_id m b) (\<lambda>stack_id'.
       Inr ((s', stack_id', inc + 1), Some m)))
     else scan_donors b D is st)))"

text \<open>One pass through the body of the \<open>while\<close> loop, from node \<open>n\<close>: the new \<open>n\<close>
  and the updated arrays.\<close>

definition nr_body ::
  "int \<Rightarrow> array \<Rightarrow> array \<Rightarrow> array \<Rightarrow> int \<Rightarrow> array \<times> array \<times> int
     \<Rightarrow> (int \<times> array \<times> array \<times> int) result" where
  "nr_body b r D delta n st =
     rbind (getitem delta n) (\<lambda>lo.
     rbind (getitem delta (n + 1)) (\<lambda>hi.
     rbind (scan_donors b D (py_range lo hi) st) (\<lambda>res.
     case snd res of
       Some m \<Rightarrow> Inr (m, fst res)
     | None \<Rightarrow> rbind (getitem r n) (\<lambda>rn. Inr (rn, fst res)))))"

text \<open>The \<open>while n != n_prev\<close> loop. It may run forever, which is the value \<open>None\<close>.\<close>

partial_function (option) nr_loop ::
  "int \<Rightarrow> array \<Rightarrow> array \<Rightarrow> array \<Rightarrow> int \<times> int \<times> array \<times> array \<times> int
     \<Rightarrow> (array \<times> array \<times> int) result option" where
  "nr_loop b r D delta st =
     (case st of (n, n_prev, rest) \<Rightarrow>
        if n \<noteq> n_prev then
          (case nr_body b r D delta n rest of
             Inl e \<Rightarrow> Some (Inl e)
           | Inr (n', rest') \<Rightarrow> nr_loop b r D delta (n', n, rest'))
        else Some (Inr rest))"

declare nr_loop.simps [code]

definition build_stack_nr ::
  "int \<Rightarrow> array \<Rightarrow> array \<Rightarrow> array \<Rightarrow> array \<Rightarrow> array \<Rightarrow> int
     \<Rightarrow> (array \<times> array \<times> int) result option" where
  "build_stack_nr b r D delta s stack_id inc =
     (case setitem s inc b of
        Inl e \<Rightarrow> Some (Inl e)
      | Inr s1 \<Rightarrow>
         (case setitem stack_id b b of
            Inl e \<Rightarrow> Some (Inl e)
          | Inr stack_id1 \<Rightarrow> nr_loop b r D delta (b, - 1, s1, stack_id1, inc)))"


section \<open>The driver \<open>order_nodes_numba\<close>\<close>

datatype ordering = Stack array | Stack_and_ids array array

text \<open>
  \<open>bstack_func\<close> is the lambda chosen by \<open>mode\<close>; it closes over \<open>s\<close> and
  \<open>stack_id\<close>, which the builders mutate. The lambda of the mode
  \<open>'non-recursive'\<close> passes the constant \<open>0\<close> as the write position. With any other
  mode the name is unbound when the first root is processed.
\<close>

definition bstack_func ::
  "nat \<Rightarrow> string \<Rightarrow> array \<Rightarrow> array \<Rightarrow> array \<Rightarrow> int \<Rightarrow> array \<times> array \<times> int
     \<Rightarrow> (array \<times> array \<times> int) result option" where
  "bstack_func limit mode receivers D delta b st =
     (case st of (s, stack_id, inc) \<Rightarrow>
        if mode = ''recursive'' then
          Some (rbind (build_stack limit b D delta (s, inc))
                  (\<lambda>res. Inr (fst res, stack_id, snd res)))
        else if mode = ''non-recursive'' then
          build_stack_nr b receivers D delta s stack_id 0
        else Some (Inl UnboundLocalError))"

text \<open>The loop \<open>for b in baselevels: inc = bstack_func(b, inc) + 1\<close>.\<close>

fun build_all ::
  "(int \<Rightarrow> array \<times> array \<times> int \<Rightarrow> (array \<times> array \<times> int) result option)
     \<Rightarrow> int list \<Rightarrow> array \<times> array \<times> int \<Rightarrow> (array \<times> array \<times> int) result option" where
  "build_all f [] st = Some (Inr st)"
| "build_all f (b # bs) st =
     (case f b st of
        None \<Rightarrow> None
      | Some (Inl e) \<Rightarrow> Some (Inl e)
      | Some (Inr (s, stack_id, inc)) \<Rightarrow> build_all f bs (s, stack_id, inc + 1))"

definition order_nodes_numba ::
  "nat \<Rightarrow> array \<Rightarrow> int list \<Rightarrow> string \<Rightarrow> bool \<Rightarrow> ordering result option" where
  "order_nodes_numba limit receivers baselevels mode out_stack_ids =
     (let np = length receivers in
      case calculate_temp_arrays receivers (zeros np) (zeros (np + 1)) (zeros np) (zeros np) of
        Inl e \<Rightarrow> Some (Inl e)
      | Inr (nd, delta, D, w) \<Rightarrow>
         (case build_all (bstack_func limit mode receivers D delta) baselevels
                 (zeros np, replicate np (- 1), 0) of
            None \<Rightarrow> None
          | Some (Inl e) \<Rightarrow> Some (Inl e)
          | Some (Inr (s, stack_id, inc)) \<Rightarrow>
              if out_stack_ids \<and> mode \<noteq> ''recursive''
              then Some (Inr (Stack_and_ids s stack_id))
              else Some (Inr (Stack s))))"


section \<open>Receiver forests and the preorder of a subtree\<close>

text \<open>
  The vocabulary of the properties. A node is an id in \<open>[0, N)\<close>; a base-level node is
  its own receiver. \<open>descend r k i\<close> follows the receiver links \<open>k\<close> times from \<open>i\<close>.
  The receiver relation without the self-loops of the base-level nodes is a forest
  when every node reaches a base-level node; with \<open>N\<close> nodes it then does so within
  \<open>N\<close> steps and stays there, so \<open>root_of r i\<close> is the root of the tree of \<open>i\<close>.
\<close>

definition node :: "array \<Rightarrow> int \<Rightarrow> bool" where
  "node r i = (0 \<le> i \<and> i < int (length r))"

definition valid_receivers :: "array \<Rightarrow> bool" where
  "valid_receivers r = list_all (node r) r"

definition base_level :: "array \<Rightarrow> int \<Rightarrow> bool" where
  "base_level r b = (node r b \<and> r ! nat b = b)"

fun descend :: "array \<Rightarrow> nat \<Rightarrow> int \<Rightarrow> int" where
  "descend r 0 i = i"
| "descend r (Suc k) i = descend r k (r ! nat i)"

definition root_of :: "array \<Rightarrow> int \<Rightarrow> int" where
  "root_of r i = descend r (length r) i"

definition forest :: "array \<Rightarrow> bool" where
  "forest r = (valid_receivers r \<and>
               list_all (\<lambda>i. base_level r (root_of r i)) (py_range 0 (int (length r))))"

text \<open>The donors of \<open>n\<close> in ascending order, and the depth-first preorder of the nodes
  upstream of \<open>n\<close> that scans the donors in that order and skips the self-loop.
  \<open>preorder r k n\<close> stops below \<open>k\<close> levels; in a forest \<open>N + 1\<close> levels hold every
  tree.\<close>

definition donors :: "array \<Rightarrow> int \<Rightarrow> int list" where
  "donors r n = filter (\<lambda>i. r ! nat i = n) (py_range 0 (int (length r)))"

definition children :: "array \<Rightarrow> int \<Rightarrow> int list" where
  "children r n = filter (\<lambda>m. m \<noteq> n) (donors r n)"

primrec preorder :: "array \<Rightarrow> nat \<Rightarrow> int \<Rightarrow> int list" where
  "preorder r 0 n = []"
| "preorder r (Suc k) n = n # concat (map (preorder r k) (children r n))"

definition subtree :: "array \<Rightarrow> int \<Rightarrow> int list" where
  "subtree r n = preorder r (Suc (length r)) n"

text \<open>\<open>blit s p xs\<close> is the array \<open>s\<close> with \<open>xs\<close> written at the positions
  \<open>p, p + 1, \<dots>\<close>; \<open>stamp a ms b\<close> is the array \<open>a\<close> with \<open>b\<close> stored at every id of
  \<open>ms\<close>.\<close>

definition blit :: "array \<Rightarrow> nat \<Rightarrow> int list \<Rightarrow> array" where
  "blit s p xs = take p s @ xs @ drop (p + length xs) s"

definition stamp :: "array \<Rightarrow> int list \<Rightarrow> int \<Rightarrow> array" where
  "stamp a ms b = fold (\<lambda>m a'. a'[nat m := b]) ms a"

text \<open>The arrays \<open>delta\<close> and \<open>D\<close> that the driver computes from the receivers.\<close>

definition temp_arrays :: "array \<Rightarrow> (array \<times> array \<times> array \<times> array) result" where
  "temp_arrays r =
     calculate_temp_arrays r (zeros (length r)) (zeros (length r + 1))
       (zeros (length r)) (zeros (length r))"


text \<open>The donor ids that a builder reads for node \<open>n\<close>:
  \<open>D[i] for i in range(delta[n], delta[n + 1])\<close>.\<close>

definition segment :: "array \<Rightarrow> array \<Rightarrow> int \<Rightarrow> int list" where
  "segment D delta n = map (\<lambda>i. D ! nat i) (py_range (delta ! nat n) (delta ! nat (n + 1)))"

text \<open>Counting devices of the proofs: the number of nodes below \<open>k\<close> with receiver \<open>x\<close>,
  and the number of nodes whose receiver is less than \<open>j\<close>.\<close>

definition cnt :: "array \<Rightarrow> nat \<Rightarrow> nat \<Rightarrow> nat" where
  "cnt r k x = length (filter (\<lambda>i. r ! i = int x) [0..<k])"

definition below :: "array \<Rightarrow> nat \<Rightarrow> nat" where
  "below r j = length (filter (\<lambda>i. r ! i < int j) [0..<length r])"

text \<open>What the builders need from \<open>delta\<close> and \<open>D\<close>.\<close>

definition adjacency :: "array \<Rightarrow> array \<Rightarrow> array \<Rightarrow> bool" where
  "adjacency r delta D =
     (length delta = length r + 1 \<and> length D = length r \<and>
      (\<forall>j\<le>length r. delta ! j = int (below r j)) \<and>
      (\<forall>x<length r. segment D delta (int x) = donors r (int x)))"

text \<open>A device of the termination proof: the number of cells of \<open>stack_id\<close> that do
  not hold \<open>b\<close>.\<close>

definition unstamped :: "int \<Rightarrow> array \<Rightarrow> nat" where
  "unstamped b sid = length (filter (\<lambda>x. x \<noteq> b) sid)"

text \<open>A device of the proofs: the number of receiver links from a node to its
  base-level node.\<close>

definition dist :: "array \<Rightarrow> int \<Rightarrow> nat" where
  "dist r i = (LEAST k. base_level r (descend r k i))"


section \<open>Basic facts about arrays and loops\<close>


lemma rbind_Inr [simp]: "rbind (Inr v) f = f v"
  by (simp add: rbind_def)

lemma rbind_Inl [simp]: "rbind (Inl e) f = Inl e"
  by (simp add: rbind_def)

lemma getitem_node: "0 \<le> i \<Longrightarrow> i < int (length a) \<Longrightarrow> getitem a i = Inr (a ! nat i)"
  by (simp add: getitem_def wrap_index_def)

lemma setitem_node: "0 \<le> i \<Longrightarrow> i < int (length a) \<Longrightarrow> setitem a i v = Inr (a[nat i := v])"
  by (simp add: setitem_def wrap_index_def)

lemma upto_0_int: "[0..int n - 1] = map int [0..<n]"
proof (induction n)
  case 0
  show ?case by simp
next
  case (Suc n)
  have "[0..int (Suc n) - 1] = [0..int n - 1] @ [int n]"
    using upto_rec2 [of 0 "int n"] by simp
  with Suc show ?case by simp
qed

lemma py_range_0: "py_range 0 (int n) = map int [0..<n]"
  by (simp add: py_range_def upto_0_int)

lemma for_loop_append:
  "for_loop (xs @ ys) body st = rbind (for_loop xs body st) (for_loop ys body)"
  by (induction xs arbitrary: st) (auto split: sum.splits)

lemma valid_receivers_nth: "valid_receivers r \<Longrightarrow> i < length r \<Longrightarrow> 0 \<le> r ! i \<and> r ! i < int (length r)"
  by (simp add: valid_receivers_def list_all_length node_def)

section \<open>Correctness of the adjacency builder\<close>

text \<open>The histogram pass.\<close>

lemma nd_loop:
  assumes "valid_receivers r"
  shows "length nd = length r \<Longrightarrow> \<forall>i\<in>set is. i < length r \<Longrightarrow>
     \<exists>nd'. for_loop (map int is) (nd_step r) nd = Inr nd' \<and> length nd' = length r \<and>
       (\<forall>x<length r. nd' ! x = nd ! x + int (length (filter (\<lambda>i. r ! i = int x) is)))"
proof (induction "is" arbitrary: nd)
  case Nil
  then show ?case by simp
next
  case (Cons i "is")
  from Cons.prems have i: "i < length r" by simp
  note ri = valid_receivers_nth [OF assms i]
  let ?nd1 = "nd[nat (r ! i) := nd ! nat (r ! i) + 1]"
  have step: "nd_step r (int i) nd = Inr ?nd1"
    using i ri Cons.prems(1) by (simp add: nd_step_def getitem_node setitem_node)
  have "length ?nd1 = length r" using Cons.prems(1) by simp
  from Cons.IH [OF this] Cons.prems(2)
  obtain nd' where nd': "for_loop (map int is) (nd_step r) ?nd1 = Inr nd'"
    "length nd' = length r"
    "\<forall>x<length r. nd' ! x = ?nd1 ! x + int (length (filter (\<lambda>i. r ! i = int x) is))"
    by auto
  have "\<forall>x<length r. nd' ! x = nd ! x + int (length (filter (\<lambda>i. r ! i = int x) (i # is)))"
  proof (intro allI impI)
    fix x assume x: "x < length r"
    show "nd' ! x = nd ! x + int (length (filter (\<lambda>i. r ! i = int x) (i # is)))"
    proof (cases "r ! i = int x")
      case True
      then have "?nd1 ! x = nd ! x + 1" using x Cons.prems(1) by simp
      with nd'(3) x True show ?thesis by simp
    next
      case False
      then have "nat (r ! i) \<noteq> x" using ri by auto
      then have "?nd1 ! x = nd ! x" by simp
      with nd'(3) x False show ?thesis by simp
    qed
  qed
  with step nd'(1,2) show ?case by simp
qed

text \<open>The offsets pass.\<close>

lemma delta_loop:
  assumes "length nd = n"
  shows "length delta = n + 1 \<Longrightarrow> k \<le> n \<Longrightarrow>
     \<exists>delta'. for_loop (map int (rev [0..<k])) (delta_step nd) delta = Inr delta' \<and>
       length delta' = n + 1 \<and>
       (\<forall>j. k \<le> j \<longrightarrow> delta' ! j = delta ! j) \<and>
       (\<forall>j<k. delta' ! j = delta' ! (j + 1) - nd ! j)"
proof (induction k arbitrary: delta)
  case 0
  then show ?case by simp
next
  case (Suc k)
  let ?d1 = "delta[k := delta ! (k + 1) - nd ! k]"
  have step: "delta_step nd (int k) delta = Inr ?d1"
    using Suc.prems assms by (simp add: delta_step_def getitem_node setitem_node nat_add_distrib)
  have "length ?d1 = n + 1" "k \<le> n" using Suc.prems by simp_all
  from Suc.IH [OF this]
  obtain d' where d': "for_loop (map int (rev [0..<k])) (delta_step nd) ?d1 = Inr d'"
    "length d' = n + 1" "\<forall>j. k \<le> j \<longrightarrow> d' ! j = ?d1 ! j"
    "\<forall>j<k. d' ! j = d' ! (j + 1) - nd ! j"
    by auto
  have a: "\<forall>j. Suc k \<le> j \<longrightarrow> d' ! j = delta ! j"
    using d'(3) by simp
  have "d' ! k = ?d1 ! k" using d'(3) by simp
  also have "\<dots> = delta ! (k + 1) - nd ! k" using Suc.prems by simp
  also have "delta ! (k + 1) = d' ! (k + 1)" using a by simp
  finally have "d' ! k = d' ! (k + 1) - nd ! k" .
  with d'(4) have b: "\<forall>j<Suc k. d' ! j = d' ! (j + 1) - nd ! j"
    by (auto simp: less_Suc_eq)
  from step d'(1,2) a b show ?case by simp
qed


lemma length_filter_disj:
  "\<forall>x\<in>set xs. \<not> (P x \<and> Q x) \<Longrightarrow>
   length (filter (\<lambda>x. P x \<or> Q x) xs) = length (filter P xs) + length (filter Q xs)"
  by (induction xs) auto

lemma below_Suc: "below r (Suc j) = below r j + cnt r (length r) j"
proof -
  have "(\<lambda>i. r ! i < int (Suc j)) = (\<lambda>i. r ! i < int j \<or> r ! i = int j)"
    by auto
  then show ?thesis
    unfolding below_def cnt_def
    by (simp add: length_filter_disj)
qed

lemma below_mono: "a \<le> b \<Longrightarrow> below r a \<le> below r b"
proof (induction b)
  case 0
  then show ?case by simp
next
  case (Suc b)
  then show ?case by (cases "a = Suc b") (auto simp: below_Suc)
qed

lemma below_0: "valid_receivers r \<Longrightarrow> below r 0 = 0"
proof -
  assume v: "valid_receivers r"
  have "filter (\<lambda>i. r ! i < int 0) [0..<length r] = []"
    using valid_receivers_nth [OF v] by (force simp: filter_empty_conv)
  then show ?thesis unfolding below_def by simp
qed

lemma below_all: "valid_receivers r \<Longrightarrow> below r (length r) = length r"
proof -
  assume v: "valid_receivers r"
  have "filter (\<lambda>i. r ! i < int (length r)) [0..<length r] = [0..<length r]"
    using valid_receivers_nth [OF v] by (intro filter_True) simp
  then show ?thesis by (simp add: below_def)
qed

lemma cnt_Suc: "cnt r (Suc k) x = cnt r k x + (if r ! k = int x then 1 else 0)"
  by (simp add: cnt_def)

lemma cnt_mono: "k \<le> k' \<Longrightarrow> cnt r k x \<le> cnt r k' x"
proof (induction k')
  case 0
  then show ?case by simp
next
  case (Suc k')
  then show ?case by (cases "k = Suc k'") (auto simp: cnt_Suc)
qed

lemma cnt_less: "k < n \<Longrightarrow> r ! k = int x \<Longrightarrow> cnt r k x < cnt r n x"
  using cnt_mono [of "Suc k" n r x] by (simp add: cnt_Suc)

text \<open>Closed form of the offsets.\<close>

lemma delta_closed_form:
  assumes rec: "\<forall>j<n. delta ! j = delta ! (j + 1) - int (cnt r n j)"
    and top: "delta ! n = int (below r n)" and n: "n = length r"
  shows "j \<le> n \<Longrightarrow> delta ! j = int (below r j)"
proof (induction j rule: inc_induct)
  case base
  show ?case by (rule top)
next
  case (step j)
  then have "delta ! j = delta ! (j + 1) - int (cnt r n j)" using rec by simp
  with step show ?case by (simp add: below_Suc n)
qed


text \<open>The scatter pass.\<close>

lemma D_loop:
  assumes v: "valid_receivers r" and n: "n = length r"
    and ld: "length delta = n + 1"
    and dl: "\<forall>j\<le>n. delta ! j = int (below r j)"
  shows "k \<le> n \<Longrightarrow> length D = n \<Longrightarrow> length w = n \<Longrightarrow> \<forall>x<n. w ! x = 0 \<Longrightarrow>
     \<exists>D' w'. for_loop (map int [0..<k]) (D_step r delta) (D, w) = Inr (D', w') \<and>
       length D' = n \<and> length w' = n \<and>
       (\<forall>x<n. w' ! x = int (cnt r k x)) \<and>
       (\<forall>x<n. \<forall>t<cnt r k x.
          D' ! (below r x + t) = int (filter (\<lambda>i. r ! i = int x) [0..<k] ! t))"
proof (induction k)
  case 0
  then show ?case by (simp add: cnt_def)
next
  case (Suc k)
  then have k: "k < n" by simp
  from Suc obtain D1 w1 where
    loop: "for_loop (map int [0..<k]) (D_step r delta) (D, w) = Inr (D1, w1)"
    and len: "length D1 = n" "length w1 = n"
    and w1: "\<forall>x<n. w1 ! x = int (cnt r k x)"
    and D1: "\<forall>x<n. \<forall>t<cnt r k x.
          D1 ! (below r x + t) = int (filter (\<lambda>i. r ! i = int x) [0..<k] ! t)"
    by auto
  note rk = valid_receivers_nth [OF v k [unfolded n]]
  define x where "x = nat (r ! k)"
  have x: "x < n" "r ! k = int x" using rk unfolding x_def n by linarith+
  define p where "p = below r x + cnt r k x"
  have "cnt r k x < cnt r n x" using cnt_less [OF k x(2)] .
  then have "p < below r (Suc x)" by (simp add: p_def below_Suc n)
  also have "\<dots> \<le> below r n" using x(1) by (intro below_mono) simp
  finally have pn: "p < n" using below_all [OF v] n by simp
  have px: "p < below r (Suc x)" using \<open>p < below r (Suc x)\<close> .
  let ?D2 = "D1[p := int k]"
  let ?w2 = "w1[x := w1 ! x + 1]"
  have dx: "delta ! x = int (below r x)" using dl x(1) by simp
  have step: "D_step r delta (int k) (D1, w1) = Inr (?D2, ?w2)"
    using k x len w1 pn ld dx
    by (simp add: D_step_def getitem_node setitem_node n p_def nat_add_distrib)
  have wq: "\<forall>y<n. ?w2 ! y = int (cnt r (Suc k) y)"
    using w1 len x by (auto simp: cnt_Suc nth_list_update)
  have Dq: "\<forall>y<n. \<forall>t<cnt r (Suc k) y.
     ?D2 ! (below r y + t) = int (filter (\<lambda>i. r ! i = int y) [0..<Suc k] ! t)"
  proof (intro allI impI)
    fix y t assume y: "y < n" and t: "t < cnt r (Suc k) y"
    show "?D2 ! (below r y + t) = int (filter (\<lambda>i. r ! i = int y) [0..<Suc k] ! t)"
    proof (cases "y = x")
      case True
      show ?thesis
      proof (cases "t = cnt r k x")
        case True
        with \<open>y = x\<close> x pn len show ?thesis
          by (simp add: p_def cnt_def nth_append)
      next
        case False
        with t \<open>y = x\<close> x have t': "t < cnt r k x" by (simp add: cnt_Suc)
        then have "below r y + t \<noteq> p" using \<open>y = x\<close> by (simp add: p_def)
        with t' D1 x \<open>y = x\<close> show ?thesis
          by (simp add: cnt_def nth_append)
      qed
    next
      case False
      with x have ry: "r ! k \<noteq> int y" by simp
      with t have t': "t < cnt r k y" by (simp add: cnt_Suc)
      have "cnt r k y \<le> cnt r n y" using k by (intro cnt_mono) simp
      with t' have q: "below r y + t < below r (Suc y)" by (simp add: below_Suc n)
      have "below r y + t \<noteq> p"
      proof (cases "y < x")
        case True
        then have "below r (Suc y) \<le> below r x" by (intro below_mono) simp
        with q show ?thesis by (simp add: p_def)
      next
        case False
        with \<open>y \<noteq> x\<close> have "below r (Suc x) \<le> below r y" by (intro below_mono) simp
        with px show ?thesis by simp
      qed
      with t' D1 y ry show ?thesis by (simp add: cnt_def)
    qed
  qed
  have "for_loop (map int [0..<Suc k]) (D_step r delta) (D, w) = Inr (?D2, ?w2)"
    using loop step by (simp add: for_loop_append)
  with len wq Dq show ?case by simp
qed


lemma py_range_nat: "py_range (int a) (int b) = map int [a..<b]"
proof (induction b)
  case 0
  show ?case by (simp add: py_range_def)
next
  case (Suc b)
  show ?case
  proof (cases "a \<le> b")
    case True
    then have "[int a..int (Suc b) - 1] = [int a..int b - 1] @ [int b]"
      using upto_rec2 [of "int a" "int b"] by simp
    with Suc True show ?thesis by (simp add: py_range_def)
  next
    case False
    then show ?thesis by (simp add: py_range_def)
  qed
qed

lemma donors_nat: "donors r (int x) = map int (filter (\<lambda>i. r ! i = int x) [0..<length r])"
  by (simp add: donors_def py_range_0 filter_map comp_def)

lemma length_donors: "length (donors r (int x)) = cnt r (length r) x"
  by (simp add: donors_nat cnt_def)

lemma length_zeros [simp]: "length (zeros n) = n"
  by (simp add: zeros_def)

lemma nth_zeros [simp]: "i < n \<Longrightarrow> zeros n ! i = 0"
  by (simp add: zeros_def)

lemma temp_arrays_ok:
  assumes v: "valid_receivers r"
  shows "\<exists>nd delta D w. temp_arrays r = Inr (nd, delta, D, w) \<and>
     length delta = length r + 1 \<and> length D = length r \<and>
     (\<forall>j\<le>length r. delta ! j = int (below r j)) \<and>
     (\<forall>x<length r. segment D delta (int x) = donors r (int x))"
proof -
  let ?n = "length r"
  have "\<forall>i\<in>set [0..<?n]. i < length r" by simp
  from nd_loop [OF v _ this, of "zeros ?n"]
  obtain nd where nd: "for_loop (map int [0..<?n]) (nd_step r) (zeros ?n) = Inr nd"
    "length nd = ?n" "\<forall>x<?n. nd ! x = int (cnt r ?n x)"
    by (auto simp: cnt_def)
  let ?d1 = "(zeros (?n + 1))[?n := int ?n]"
  have s1: "setitem (zeros (?n + 1)) (int ?n) (int ?n) = Inr ?d1"
    by (simp add: setitem_node)
  have "length ?d1 = ?n + 1" by simp
  from delta_loop [OF nd(2) this, of ?n]
  obtain delta where delta: "for_loop (map int (rev [0..<?n])) (delta_step nd) ?d1 = Inr delta"
    "length delta = ?n + 1" "delta ! ?n = int ?n"
    "\<forall>j<?n. delta ! j = delta ! (j + 1) - nd ! j"
    by auto
  have a: "\<forall>j<?n. delta ! j = delta ! (j + 1) - int (cnt r ?n j)"
    using delta(4) nd(3) by simp
  have b: "delta ! ?n = int (below r ?n)"
    using delta(3) below_all [OF v] by simp
  have cf: "\<forall>j\<le>?n. delta ! j = int (below r j)"
    using delta_closed_form [OF a b refl] by blast
  have z: "\<forall>x<?n. zeros ?n ! x = 0" by simp
  from D_loop [OF v refl delta(2) cf order_refl length_zeros length_zeros z]
  obtain D w where D:
    "for_loop (map int [0..<?n]) (D_step r delta) (zeros ?n, zeros ?n) = Inr (D, w)"
    "length D = ?n" "length w = ?n"
    "\<forall>x<?n. \<forall>t<cnt r ?n x. D ! (below r x + t) = int (filter (\<lambda>i. r ! i = int x) [0..<?n] ! t)"
    by blast
  have run: "temp_arrays r = Inr (nd, delta, D, w)"
    using nd(1) s1 delta(1) D(1)
    by (simp add: temp_arrays_def calculate_temp_arrays_def py_range_0 rev_map)
  have seg: "\<forall>x<?n. segment D delta (int x) = donors r (int x)"
  proof (intro allI impI)
    fix x assume x: "x < ?n"
    have "segment D delta (int x) =
            map (\<lambda>i. D ! nat i) (py_range (int (below r x)) (int (below r (Suc x))))"
      using cf x by (simp add: segment_def nat_add_distrib)
    also have "\<dots> = map (\<lambda>i. D ! i) [below r x..<below r x + cnt r ?n x]"
      unfolding py_range_nat below_Suc by (simp add: comp_def)
    also have "\<dots> = map (\<lambda>t. D ! (below r x + t)) [0..<cnt r ?n x]"
      by (simp add: list_eq_iff_nth_eq)
    also have "\<dots> = map (\<lambda>t. int (filter (\<lambda>i. r ! i = int x) [0..<?n] ! t)) [0..<cnt r ?n x]"
    proof (rule map_cong [OF refl])
      fix t assume "t \<in> set [0..<cnt r ?n x]"
      then have "t < cnt r ?n x" by simp
      with D(4) x show "D ! (below r x + t) = int (filter (\<lambda>i. r ! i = int x) [0..<?n] ! t)"
        by blast
    qed
    also have "\<dots> = map int (filter (\<lambda>i. r ! i = int x) [0..<?n])"
      unfolding cnt_def by (rule nth_equalityI) simp_all
    finally show "segment D delta (int x) = donors r (int x)"
      by (simp add: donors_nat)
  qed
  from run delta(2) D(2) cf seg show ?thesis
    by blast
qed




section \<open>Forests\<close>

lemma set_py_range: "set (py_range a b) = {i. a \<le> i \<and> i < b}"
  by (auto simp: py_range_def)

lemma set_donors: "set (donors r n) = {i. node r i \<and> r ! nat i = n}"
  by (auto simp: donors_def set_py_range node_def)

lemma ascending_donors: "sorted_wrt (<) (donors r n)"
  unfolding donors_def py_range_def
  by (intro sorted_wrt_filter) (simp add: strict_sorted_iff)

lemma descend_Suc_right: "descend r (Suc k) i = r ! nat (descend r k i)"
  by (induction k arbitrary: i) simp_all

lemma descend_add: "descend r (j + t) i = descend r t (descend r j i)"
  by (induction j arbitrary: i) simp_all

lemma node_nat: "node r i \<Longrightarrow> nat i < length r"
  unfolding node_def by linarith

lemma node_int: "i < length r \<Longrightarrow> node r (int i)"
  by (simp add: node_def)

lemma node_receiver:
  assumes "valid_receivers r" "node r i"
  shows "node r (r ! nat i)"
proof -
  have "nat i < length r" using assms(2) by (rule node_nat)
  from valid_receivers_nth [OF assms(1) this] show ?thesis by (simp add: node_def)
qed

lemma node_descend: "valid_receivers r \<Longrightarrow> node r i \<Longrightarrow> node r (descend r k i)"
  by (induction k arbitrary: i) (simp_all add: node_receiver)

lemma descend_base: "base_level r b \<Longrightarrow> descend r k b = b"
  by (induction k) (simp_all add: base_level_def)

lemma forest_valid: "forest r \<Longrightarrow> valid_receivers r"
  by (simp add: forest_def)

lemma forest_reaches: "forest r \<Longrightarrow> node r i \<Longrightarrow> base_level r (descend r (length r) i)"
  by (auto simp: forest_def list_all_iff set_py_range node_def root_of_def)

lemma dist_base: "base_level r i \<Longrightarrow> dist r i = 0"
  unfolding dist_def by (rule Least_eq_0) simp

lemma dist_le: "forest r \<Longrightarrow> node r i \<Longrightarrow> dist r i \<le> length r"
  unfolding dist_def by (rule Least_le) (rule forest_reaches)

lemma dist_reaches: "forest r \<Longrightarrow> node r i \<Longrightarrow> base_level r (descend r (dist r i) i)"
  unfolding dist_def by (rule LeastI) (rule forest_reaches)

lemma dist_step:
  assumes "forest r" "node r i" "r ! nat i \<noteq> i"
  shows "dist r i = Suc (dist r (r ! nat i))"
proof -
  let ?P = "\<lambda>k. base_level r (descend r k i)"
  have "?P (length r)" using assms by (simp add: forest_reaches)
  moreover have "\<not> ?P 0" using assms(3) by (simp add: base_level_def)
  ultimately have "(LEAST k. ?P k) = Suc (LEAST k. ?P (Suc k))"
    by (rule Least_Suc)
  then show ?thesis by (simp add: dist_def)
qed

lemma dist_descend_le:
  "forest r \<Longrightarrow> node r m \<Longrightarrow> dist r m \<le> dist r (descend r j m) + j"
proof (induction j arbitrary: m)
  case 0
  then show ?case by simp
next
  case (Suc j)
  show ?case
  proof (cases "r ! nat m = m")
    case True
    with Suc.prems have "base_level r m" by (simp add: base_level_def)
    then show ?thesis by (simp add: dist_base)
  next
    case False
    have "node r (r ! nat m)" using Suc.prems by (simp add: node_receiver forest_valid)
    from Suc.IH [OF Suc.prems(1) this] dist_step [OF Suc.prems False]
    show ?thesis by simp
  qed
qed

section \<open>Children and the preorder\<close>

lemma in_children: "c \<in> set (children r n) \<longleftrightarrow> node r c \<and> r ! nat c = n \<and> c \<noteq> n"
  by (auto simp: children_def set_donors)

lemma distinct_children: "distinct (children r n)"
  unfolding children_def donors_def py_range_def by simp

lemma child_dist: "forest r \<Longrightarrow> c \<in> set (children r n) \<Longrightarrow> dist r c = Suc (dist r n)"
  using dist_step [of r c] by (auto simp: in_children)

lemma preorder_path:
  "forest r \<Longrightarrow> m \<in> set (preorder r k n) \<Longrightarrow> node r n \<Longrightarrow>
     node r m \<and> (\<exists>j<k. descend r j m = n \<and> dist r m = dist r n + j)"
proof (induction k arbitrary: n)
  case 0
  then show ?case by simp
next
  case (Suc k)
  show ?case
  proof (cases "m = n")
    case True
    with Suc.prems show ?thesis by auto
  next
    case False
    with Suc.prems obtain c where c: "c \<in> set (children r n)" "m \<in> set (preorder r k c)"
      by auto
    then have nc: "node r c" "r ! nat c = n" by (simp_all add: in_children)
    from Suc.IH [OF Suc.prems(1) c(2) nc(1)] obtain j where
      j: "node r m" "j < k" "descend r j m = c" "dist r m = dist r c + j"
      by blast
    have "descend r (Suc j) m = n" using j(3) nc(2) by (simp only: descend_Suc_right)
    moreover have "dist r m = dist r n + Suc j"
      using j(4) child_dist [OF Suc.prems(1) c(1)] by simp
    ultimately show ?thesis using j(1,2) by blast
  qed
qed

lemma preorder_complete:
  "forest r \<Longrightarrow> node r m \<Longrightarrow> descend r j m = n \<Longrightarrow> dist r m = dist r n + j \<Longrightarrow> j < k \<Longrightarrow>
     m \<in> set (preorder r k n)"
proof (induction j arbitrary: n k)
  case 0
  then show ?case by (cases k) simp_all
next
  case (Suc j)
  define c where "c = descend r j m"
  have rc: "r ! nat c = n"
    unfolding c_def using Suc.prems(3) by (simp only: descend_Suc_right)
  have nc: "node r c" using Suc.prems by (simp add: c_def node_descend forest_valid)
  have "c \<noteq> n"
  proof
    assume "c = n"
    then have "dist r m \<le> dist r n + j"
      using dist_descend_le [OF Suc.prems(1,2), of j] by (simp add: c_def)
    with Suc.prems(4) show False by simp
  qed
  with rc nc have ch: "c \<in> set (children r n)" by (simp add: in_children)
  obtain k' where k': "k = Suc k'" using Suc.prems(5) by (cases k) simp_all
  have "dist r m = dist r c + j"
    using Suc.prems(4) child_dist [OF Suc.prems(1) ch] by simp
  from Suc.IH [OF Suc.prems(1,2) c_def [symmetric] this, of k'] Suc.prems(5) k'
  have "m \<in> set (preorder r k' c)" by simp
  with ch show ?case by (auto simp: k')
qed

lemma distinct_concat_map:
  "distinct cs \<Longrightarrow> (\<And>c. c \<in> set cs \<Longrightarrow> distinct (f c)) \<Longrightarrow>
   (\<And>c c'. c \<in> set cs \<Longrightarrow> c' \<in> set cs \<Longrightarrow> c \<noteq> c' \<Longrightarrow> set (f c) \<inter> set (f c') = {}) \<Longrightarrow>
   distinct (concat (map f cs))"
proof (induction cs)
  case Nil
  then show ?case by simp
next
  case (Cons c cs)
  have "distinct (concat (map f cs))"
    using Cons.prems by (intro Cons.IH) auto
  moreover have "distinct (f c)" using Cons.prems(2) by simp
  moreover have "set (f c) \<inter> set (f c') = {}" if "c' \<in> set cs" for c'
    using Cons.prems(1) Cons.prems(3) [of c c'] that by auto
  ultimately show ?case by auto
qed

lemma siblings_disjoint:
  assumes f: "forest r" and c: "c \<in> set (children r n)" and c': "c' \<in> set (children r n)"
    and ne: "c \<noteq> c'"
  shows "set (preorder r k c) \<inter> set (preorder r k' c') = {}"
proof (rule ccontr)
  assume "set (preorder r k c) \<inter> set (preorder r k' c') \<noteq> {}"
  then obtain m where m: "m \<in> set (preorder r k c)" "m \<in> set (preorder r k' c')"
    by blast
  from preorder_path [OF f m(1)] c obtain j where
    j: "descend r j m = c" "dist r m = dist r c + j" by (auto simp: in_children)
  from preorder_path [OF f m(2)] c' obtain j' where
    j': "descend r j' m = c'" "dist r m = dist r c' + j'" by (auto simp: in_children)
  have "j = j'" using j(2) j'(2) child_dist [OF f c] child_dist [OF f c'] by simp
  with j(1) j'(1) ne show False by simp
qed

lemma parent_not_in_child:
  assumes f: "forest r" and c: "c \<in> set (children r n)"
  shows "n \<notin> set (preorder r k c)"
proof
  assume "n \<in> set (preorder r k c)"
  from preorder_path [OF f this] c obtain j where "dist r n = dist r c + j"
    by (auto simp: in_children)
  with child_dist [OF f c] show False by simp
qed

lemma distinct_preorder: "forest r \<Longrightarrow> node r n \<Longrightarrow> distinct (preorder r k n)"
proof (induction k arbitrary: n)
  case 0
  then show ?case by simp
next
  case (Suc k)
  have "distinct (concat (map (preorder r k) (children r n)))"
  proof (rule distinct_concat_map)
    show "distinct (children r n)" by (rule distinct_children)
  next
    fix c assume "c \<in> set (children r n)"
    then show "distinct (preorder r k c)"
      using Suc.IH [OF Suc.prems(1), of c] by (simp add: in_children)
  next
    fix c c' assume "c \<in> set (children r n)" "c' \<in> set (children r n)" "c \<noteq> c'"
    then show "set (preorder r k c) \<inter> set (preorder r k c') = {}"
      by (rule siblings_disjoint [OF Suc.prems(1)])
  qed
  moreover have "n \<notin> set (concat (map (preorder r k) (children r n)))"
    using parent_not_in_child [OF Suc.prems(1)] by auto
  ultimately show ?case by simp
qed

lemma preorder_enough:
  "forest r \<Longrightarrow> node r n \<Longrightarrow> length r < dist r n + k \<Longrightarrow>
     preorder r k n = preorder r (Suc (length r) - dist r n) n"
proof (induction k arbitrary: n)
  case 0
  with dist_le [of r n] show ?case by simp
next
  case (Suc k)
  have d: "Suc (length r) - dist r n = Suc (length r - dist r n)"
    using dist_le [OF Suc.prems(1,2)] by simp
  have *: "map (preorder r k) (children r n) = map (preorder r (length r - dist r n)) (children r n)"
  proof (rule map_cong [OF refl])
    fix c assume c: "c \<in> set (children r n)"
    then have "node r c" by (simp add: in_children)
    from Suc.IH [OF Suc.prems(1) this] Suc.prems(3) child_dist [OF Suc.prems(1) c]
    show "preorder r k c = preorder r (length r - dist r n) c" by simp
  qed
  show ?case unfolding d preorder.simps * by (rule refl)
qed

lemma preorder_subtree:
  "forest r \<Longrightarrow> node r n \<Longrightarrow> length r < dist r n + k \<Longrightarrow> preorder r k n = subtree r n"
  using preorder_enough [of r n k] preorder_enough [of r n "Suc (length r)"]
  by (simp add: subtree_def)

lemma subtree_unfold:
  assumes "forest r" "node r n"
  shows "subtree r n = n # concat (map (subtree r) (children r n))"
proof -
  have *: "map (preorder r (length r)) (children r n) = map (subtree r) (children r n)"
  proof (rule map_cong [OF refl])
    fix c assume c: "c \<in> set (children r n)"
    then have "node r c" by (simp add: in_children)
    then show "preorder r (length r) c = subtree r c"
      using child_dist [OF assms(1) c] by (intro preorder_subtree assms) simp_all
  qed
  have "subtree r n = n # concat (map (preorder r (length r)) (children r n))"
    by (simp add: subtree_def)
  then show ?thesis unfolding * .
qed

lemma distinct_subtree: "forest r \<Longrightarrow> node r n \<Longrightarrow> distinct (subtree r n)"
  unfolding subtree_def by (rule distinct_preorder)

lemma subtree_nodes: "forest r \<Longrightarrow> node r n \<Longrightarrow> m \<in> set (subtree r n) \<Longrightarrow> node r m"
  unfolding subtree_def using preorder_path [of r m "Suc (length r)" n] by blast

lemma set_subtree_root:
  assumes f: "forest r" and b: "base_level r b"
  shows "set (subtree r b) = {m. node r m \<and> root_of r m = b}"
proof (intro set_eqI iffI)
  fix m assume "m \<in> set (subtree r b)"
  then have "m \<in> set (preorder r (Suc (length r)) b)" by (simp add: subtree_def)
  from preorder_path [OF f this] b obtain j where
    j: "node r m" "descend r j m = b" "dist r m = dist r b + j"
    by (auto simp: base_level_def)
  have "j \<le> length r" using j(3) dist_le [OF f j(1)] by simp
  then have "descend r (length r) m = descend r (length r - j) (descend r j m)"
    using descend_add [of r j "length r - j" m] by simp
  with j(2) b have "root_of r m = b" by (simp add: root_of_def descend_base)
  with j(1) show "m \<in> {m. node r m \<and> root_of r m = b}" by simp
next
  fix m assume "m \<in> {m. node r m \<and> root_of r m = b}"
  then have m: "node r m" "descend r (length r) m = b" by (simp_all add: root_of_def)
  let ?j = "dist r m"
  have le: "?j \<le> length r" by (rule dist_le [OF f m(1)])
  have "descend r (length r) m = descend r (length r - ?j) (descend r ?j m)"
    using descend_add [of r ?j "length r - ?j" m] le by simp
  also have "\<dots> = descend r ?j m"
    by (rule descend_base) (rule dist_reaches [OF f m(1)])
  finally have "descend r ?j m = b" using m(2) by simp
  moreover have "dist r m = dist r b + ?j" using b by (simp add: dist_base)
  moreover have "?j < Suc (length r)" using le by simp
  ultimately have "m \<in> set (preorder r (Suc (length r)) b)"
    by (rule preorder_complete [OF f m(1)])
  then show "m \<in> set (subtree r b)" by (simp add: subtree_def)
qed

lemma length_distinct_nodes:
  assumes "distinct xs" "\<forall>x\<in>set xs. node r x"
  shows "length xs \<le> length r"
proof -
  have "set xs \<subseteq> {0..<int (length r)}" using assms(2) by (auto simp: node_def)
  then have "card (set xs) \<le> card {0..<int (length r)}"
    by (intro card_mono) simp_all
  with assms(1) show ?thesis by (simp add: distinct_card)
qed



section \<open>Forests are the receiver arrays without cycles\<close>

lemma dist_descend:
  "forest r \<Longrightarrow> node r m \<Longrightarrow> dist r (descend r j m) = dist r m - j"
proof (induction j arbitrary: m)
  case 0
  then show ?case by simp
next
  case (Suc j)
  have v: "node r (r ! nat m)" using Suc.prems by (simp add: node_receiver forest_valid)
  show ?case
  proof (cases "r ! nat m = m")
    case True
    with Suc.prems have "dist r m = 0" by (simp add: dist_base base_level_def)
    with Suc.IH [OF Suc.prems] True show ?thesis by simp
  next
    case False
    from Suc.IH [OF Suc.prems(1) v] dist_step [OF Suc.prems False]
    show ?thesis by simp
  qed
qed

lemma forest_no_cycle:
  assumes f: "forest r" and i: "node r i" and k: "0 < k" and c: "descend r k i = i"
  shows "r ! nat i = i"
proof -
  have "dist r i = dist r i - k" using dist_descend [OF f i, of k] c by simp
  with k have "dist r i = 0" by simp
  with dist_reaches [OF f i] show ?thesis by (simp add: base_level_def)
qed

lemma no_cycle_forest:
  assumes v: "valid_receivers r"
    and nc: "\<And>i k. node r i \<Longrightarrow> 0 < k \<Longrightarrow> descend r k i = i \<Longrightarrow> r ! nat i = i"
  shows "forest r"
proof -
  have "base_level r (descend r (length r) i)" if i: "node r i" for i
  proof -
    let ?f = "\<lambda>j. descend r j i"
    have "?f ` {0..length r} \<subseteq> {0..<int (length r)}"
      using node_descend [OF v i] by (auto simp: node_def)
    then have "card (?f ` {0..length r}) \<le> card {0..<int (length r)}"
      by (intro card_mono) simp_all
    then have "card (?f ` {0..length r}) < card {0..length r}" by simp
    then have "\<not> inj_on ?f {0..length r}" by (rule pigeonhole)
    then obtain x y where xy: "x \<le> length r" "y \<le> length r" "x \<noteq> y" "?f x = ?f y"
      by (auto simp: inj_on_def)
    define a where "a = min x y"
    define b where "b = max x y"
    have ab: "a < b" "b \<le> length r" "?f a = ?f b"
      using xy by (auto simp: a_def b_def min_def max_def)
    have "descend r (b - a) (?f a) = ?f b"
      using descend_add [of r a "b - a" i] ab(1) by simp
    then have "descend r (b - a) (?f a) = ?f a" using ab(3) by simp
    moreover have na: "node r (?f a)" by (rule node_descend [OF v i])
    ultimately have "r ! nat (?f a) = ?f a" using ab(1) by (intro nc) simp_all
    with na have base: "base_level r (?f a)" by (simp add: base_level_def)
    have "descend r (length r) i = descend r (length r - a) (?f a)"
      using descend_add [of r a "length r - a" i] ab(1,2) by simp
    also have "\<dots> = ?f a" by (rule descend_base [OF base])
    finally show ?thesis using base by simp
  qed
  with v show ?thesis
    by (auto simp: forest_def list_all_iff set_py_range node_def root_of_def)
qed

text \<open>
  The receiver relation has no cycle but the self-loops of the base-level nodes exactly
  when every node reaches a base-level node within \<open>N\<close> links, which is how \<open>forest\<close>
  is written.
\<close>

theorem forest_iff_acyclic:
  "forest r \<longleftrightarrow>
     valid_receivers r \<and> (\<forall>i k. node r i \<and> 0 < k \<and> descend r k i = i \<longrightarrow> r ! nat i = i)"
  using forest_valid forest_no_cycle no_cycle_forest by blast



section \<open>Reading the adjacency arrays\<close>

lemma temp_arrays_adjacency:
  "valid_receivers r \<Longrightarrow> \<exists>nd delta D w. temp_arrays r = Inr (nd, delta, D, w) \<and> adjacency r delta D"
  using temp_arrays_ok [of r] unfolding adjacency_def by blast

lemma below_le: "below r j \<le> length r"
  unfolding below_def using length_filter_le [of _ "[0..<length r]"] by simp

lemma adjacency_delta:
  assumes "adjacency r delta D" "node r n"
  shows "getitem delta n = Inr (delta ! nat n)"
    and "getitem delta (n + 1) = Inr (delta ! nat (n + 1))"
  using assms by (simp_all add: adjacency_def node_def getitem_node)

lemma adjacency_positions:
  assumes a: "adjacency r delta D" and n: "node r n"
    and i: "i \<in> set (py_range (delta ! nat n) (delta ! nat (n + 1)))"
  shows "0 \<le> i \<and> i < int (length D)"
proof -
  have x: "nat n < length r" "nat (n + 1) \<le> length r"
    using n unfolding node_def by linarith+
  have "delta ! nat n = int (below r (nat n))" "delta ! nat (n + 1) = int (below r (nat (n + 1)))"
    using a x by (simp_all add: adjacency_def)
  with i have "0 \<le> i" "i < int (below r (nat (n + 1)))"
    by (simp_all add: set_py_range)
  moreover have "length D = length r" using a by (simp add: adjacency_def)
  ultimately show ?thesis using below_le [of r "nat (n + 1)"] by simp
qed

lemma adjacency_segment:
  "adjacency r delta D \<Longrightarrow> node r n \<Longrightarrow> segment D delta n = donors r n"
  using node_nat [of r n] by (auto simp: adjacency_def node_def)

lemma for_loop_getitem:
  "\<forall>i\<in>set is. 0 \<le> i \<and> i < int (length D) \<Longrightarrow>
   for_loop is (\<lambda>i st. rbind (getitem D i) (\<lambda>m. f m st)) st
     = for_loop (map (\<lambda>i. D ! nat i) is) f st"
  by (induction "is" arbitrary: st) (auto simp: getitem_node split: sum.splits)

section \<open>Writing a run of cells\<close>

lemma length_blit: "p + length xs \<le> length s \<Longrightarrow> length (blit s p xs) = length s"
  by (simp add: blit_def)

lemma blit_Nil: "blit s p [] = s"
  by (simp add: blit_def)

lemma blit_Cons: "p < length s \<Longrightarrow> blit (s[p := x]) (Suc p) xs = blit s p (x # xs)"
  by (simp add: blit_def take_Suc_conv_app_nth)

lemma blit_append:
  "p + length xs \<le> length s \<Longrightarrow> blit (blit s p xs) (p + length xs) ys = blit s p (xs @ ys)"
  by (simp add: blit_def ac_simps)

section \<open>The recursive builder writes the preorder\<close>

lemma build_stack_children:
  assumes IH: "\<And>m s p. m \<in> set (children r n) \<Longrightarrow> p + length (subtree r m) \<le> length s \<Longrightarrow>
     build_stack k m D delta (s, int p)
       = Inr (blit s p (subtree r m), int p + int (length (subtree r m)) - 1)"
  shows "set ms \<subseteq> set (donors r n) \<Longrightarrow>
     Suc q + length (concat (map (subtree r) (filter (\<lambda>m. m \<noteq> n) ms))) \<le> length s \<Longrightarrow>
     for_loop ms (\<lambda>m st'. if m \<noteq> n then build_stack k m D delta (fst st', snd st' + 1)
                            else Inr st') (s, int q)
       = Inr (blit s (Suc q) (concat (map (subtree r) (filter (\<lambda>m. m \<noteq> n) ms))),
              int q + int (length (concat (map (subtree r) (filter (\<lambda>m. m \<noteq> n) ms)))))"
proof (induction ms arbitrary: s q)
  case Nil
  then show ?case by (simp add: blit_Nil)
next
  case (Cons m ms)
  show ?case
  proof (cases "m = n")
    case True
    with Cons show ?thesis by simp
  next
    case False
    let ?t = "subtree r m"
    let ?rest = "concat (map (subtree r) (filter (\<lambda>m. m \<noteq> n) ms))"
    have ch: "m \<in> set (children r n)" using Cons.prems(1) False by (simp add: children_def)
    have room: "Suc q + length ?t \<le> length s" using Cons.prems(2) False by simp
    have call: "build_stack k m D delta (s, int q + 1)
        = Inr (blit s (Suc q) ?t, int (q + length ?t))"
      using IH [OF ch room] by (simp add: add.commute)
    have "Suc (q + length ?t) + length ?rest \<le> length (blit s (Suc q) ?t)"
      using Cons.prems(2) False by (simp add: length_blit)
    from Cons.IH [OF _ this] Cons.prems(1)
    have "for_loop ms (\<lambda>m st'. if m \<noteq> n then build_stack k m D delta (fst st', snd st' + 1)
                            else Inr st') (blit s (Suc q) ?t, int (q + length ?t))
       = Inr (blit (blit s (Suc q) ?t) (Suc q + length ?t) ?rest,
              int (q + length ?t) + int (length ?rest))"
      by simp
    moreover have "blit (blit s (Suc q) ?t) (Suc q + length ?t) ?rest = blit s (Suc q) (?t @ ?rest)"
      using room by (rule blit_append)
    ultimately show ?thesis using call False by simp
  qed
qed

lemma build_stack_subtree:
  assumes f: "forest r" and a: "adjacency r delta D"
  shows "node r n \<Longrightarrow> length r < dist r n + k \<Longrightarrow> p + length (subtree r n) \<le> length s \<Longrightarrow>
     build_stack k n D delta (s, int p)
       = Inr (blit s p (subtree r n), int p + int (length (subtree r n)) - 1)"
proof (induction k arbitrary: n s p)
  case 0
  with dist_le [OF f, of n] show ?case by simp
next
  case (Suc k)
  let ?above = "concat (map (subtree r) (children r n))"
  have st: "subtree r n = n # ?above" by (rule subtree_unfold [OF f Suc.prems(1)])
  have p: "p < length s" using Suc.prems(3) st by simp
  have IH: "build_stack k m D delta (s', int p')
       = Inr (blit s' p' (subtree r m), int p' + int (length (subtree r m)) - 1)"
    if "m \<in> set (children r n)" "p' + length (subtree r m) \<le> length s'" for m s' p'
  proof (rule Suc.IH)
    show "node r m" using that(1) by (simp add: in_children)
    show "length r < dist r m + k" using Suc.prems(2) child_dist [OF f that(1)] by simp
    show "p' + length (subtree r m) \<le> length s'" by (rule that(2))
  qed
  have pos: "\<forall>i\<in>set (py_range (delta ! nat n) (delta ! nat (n + 1))). 0 \<le> i \<and> i < int (length D)"
    using adjacency_positions [OF a Suc.prems(1)] by blast
  have room: "Suc p + length (concat (map (subtree r) (filter (\<lambda>m. m \<noteq> n) (donors r n))))
      \<le> length (s[p := n])"
    using Suc.prems(3) st by (simp add: children_def)
  have "build_stack (Suc k) n D delta (s, int p)
      = for_loop (donors r n)
          (\<lambda>m st'. if m \<noteq> n then build_stack k m D delta (fst st', snd st' + 1) else Inr st')
          (s[p := n], int p)"
    using p adjacency_delta [OF a Suc.prems(1)] for_loop_getitem [OF pos]
      adjacency_segment [OF a Suc.prems(1)]
    by (simp add: setitem_node segment_def)
  also have "\<dots> = Inr (blit (s[p := n]) (Suc p) ?above, int p + int (length ?above))"
    using build_stack_children [OF IH subset_refl room] by (simp add: children_def)
  finally show ?case using p by (simp add: st blit_Cons)
qed



section \<open>Stamping\<close>

lemma length_stamp [simp]: "length (stamp a ms b) = length a"
  unfolding stamp_def by (induction ms arbitrary: a) simp_all

lemma stamp_Nil: "stamp a [] b = a"
  by (simp add: stamp_def)

lemma stamp_Cons: "stamp (a[nat m := b]) ms b = stamp a (m # ms) b"
  by (simp add: stamp_def)

lemma stamp_append: "stamp (stamp a xs b) ys b = stamp a (xs @ ys) b"
  by (simp add: stamp_def)

lemma nth_stamp:
  "\<forall>m\<in>set ms. 0 \<le> m \<Longrightarrow> 0 \<le> j \<Longrightarrow> nat j < length a \<Longrightarrow>
     stamp a ms b ! nat j = (if j \<in> set ms then b else a ! nat j)"
proof (induction ms arbitrary: a)
  case Nil
  then show ?case by (simp add: stamp_def)
next
  case (Cons m ms)
  have "stamp a (m # ms) b = stamp (a[nat m := b]) ms b" by (simp add: stamp_def)
  moreover have "nat m = nat j \<longleftrightarrow> m = j" using Cons.prems by auto
  ultimately show ?case using Cons by (auto simp: nth_list_update)
qed

section \<open>The scan of one donor segment\<close>

lemma scan_donors_none:
  "\<forall>i\<in>set is. 0 \<le> i \<and> i < int (length D) \<Longrightarrow>
   \<forall>i\<in>set is. 0 \<le> D ! nat i \<and> D ! nat i < int (length sid) \<and> sid ! nat (D ! nat i) = b \<Longrightarrow>
   scan_donors b D is (s, sid, inc) = Inr ((s, sid, inc), None)"
  by (induction "is") (simp_all add: getitem_node)

lemma scan_donors_found:
  assumes "\<forall>i\<in>set is. 0 \<le> i \<and> i < int (length D)"
    and "map (\<lambda>i. D ! nat i) is = ps @ c # cs"
    and "\<forall>m\<in>set ps. 0 \<le> m \<and> m < int (length sid) \<and> sid ! nat m = b"
    and "0 \<le> c" "c < int (length sid)" "sid ! nat c \<noteq> b"
    and "0 \<le> inc" "inc + 1 < int (length s)"
  shows "scan_donors b D is (s, sid, inc)
           = Inr ((s[nat (inc + 1) := c], sid[nat c := b], inc + 1), Some c)"
  using assms(1-3)
proof (induction ps arbitrary: "is")
  case Nil
  then obtain i is' where "is = i # is'" "D ! nat i = c" by auto
  with Nil assms(4-) show ?case by (simp add: getitem_node setitem_node)
next
  case (Cons m ps)
  then obtain i is' where i: "is = i # is'" "D ! nat i = m" "map (\<lambda>i. D ! nat i) is' = ps @ c # cs"
    by auto
  have "scan_donors b D is' (s, sid, inc)
           = Inr ((s[nat (inc + 1) := c], sid[nat c := b], inc + 1), Some c)"
    using Cons.prems i by (intro Cons.IH) simp_all
  with Cons.prems i show ?case by (simp add: getitem_node)
qed

section \<open>One pass through the loop body\<close>

lemma nr_body_down:
  assumes a: "adjacency r delta D" and n: "node r n" and l: "length sid = length r"
    and st: "\<forall>m\<in>set (donors r n). sid ! nat m = b"
  shows "nr_body b r D delta n (s, sid, inc) = Inr (r ! nat n, s, sid, inc)"
proof -
  let ?is = "py_range (delta ! nat n) (delta ! nat (n + 1))"
  have pos: "\<forall>i\<in>set ?is. 0 \<le> i \<and> i < int (length D)"
    using adjacency_positions [OF a n] by blast
  have seg: "map (\<lambda>i. D ! nat i) ?is = donors r n"
    using adjacency_segment [OF a n] by (simp add: segment_def)
  have "\<forall>i\<in>set ?is. D ! nat i \<in> set (donors r n)"
    using seg by (metis (no_types, lifting) image_eqI list.set_map)
  then have "\<forall>i\<in>set ?is. 0 \<le> D ! nat i \<and> D ! nat i < int (length sid) \<and> sid ! nat (D ! nat i) = b"
    using st l by (auto simp: set_donors node_def)
  from scan_donors_none [OF pos this]
  have "scan_donors b D ?is (s, sid, inc) = Inr ((s, sid, inc), None)" .
  then show ?thesis
    using adjacency_delta [OF a n] n
    by (simp add: nr_body_def getitem_node node_def)
qed

lemma nr_body_up:
  assumes a: "adjacency r delta D" and n: "node r n" and l: "length sid = length r"
    and d: "donors r n = ps @ c # cs"
    and st: "\<forall>m\<in>set ps. sid ! nat m = b" and c: "sid ! nat c \<noteq> b"
    and q: "Suc q < length s"
  shows "nr_body b r D delta n (s, sid, int q)
           = Inr (c, s[Suc q := c], sid[nat c := b], int (Suc q))"
proof -
  let ?is = "py_range (delta ! nat n) (delta ! nat (n + 1))"
  have pos: "\<forall>i\<in>set ?is. 0 \<le> i \<and> i < int (length D)"
    using adjacency_positions [OF a n] by blast
  have seg: "map (\<lambda>i. D ! nat i) ?is = ps @ c # cs"
    using adjacency_segment [OF a n] d by (simp add: segment_def)
  have nodes: "\<forall>m\<in>set (ps @ c # cs). node r m"
    using set_donors [of r n] d by auto
  have 1: "\<forall>m\<in>set ps. 0 \<le> m \<and> m < int (length sid) \<and> sid ! nat m = b"
    using nodes st l by (simp add: node_def)
  have 2: "0 \<le> c" "c < int (length sid)" using nodes l by (simp_all add: node_def)
  have "scan_donors b D ?is (s, sid, int q)
      = Inr ((s[nat (int q + 1) := c], sid[nat c := b], int q + 1), Some c)"
    using q by (intro scan_donors_found [OF pos seg 1 2 c]) simp_all
  moreover have "nat (int q + 1) = Suc q" by simp
  ultimately show ?thesis
    using adjacency_delta [OF a n]
    by (simp add: nr_body_def add.commute)
qed


section \<open>The walk of the iterative builder over a subtree\<close>

lemma nr_loop_step:
  "n \<noteq> n_prev \<Longrightarrow> nr_body b r D delta n st = Inr (n', st') \<Longrightarrow>
     nr_loop b r D delta (n, n_prev, st) = nr_loop b r D delta (n', n, st')"
  by (subst nr_loop.simps) simp

lemma nr_loop_exit: "nr_loop b r D delta (n, n, st) = Some (Inr st)"
  by (subst nr_loop.simps) simp

lemma subtree_head: "forest r \<Longrightarrow> node r n \<Longrightarrow> n \<in> set (subtree r n)"
  by (simp add: subtree_unfold)

lemma subtree_tl:
  "forest r \<Longrightarrow> node r n \<Longrightarrow> tl (subtree r n) = concat (map (subtree r) (children r n))"
  by (simp add: subtree_unfold)

lemma subtree_siblings_disjoint:
  "forest r \<Longrightarrow> c \<in> set (children r n) \<Longrightarrow> c' \<in> set (children r n) \<Longrightarrow> c \<noteq> c' \<Longrightarrow>
     set (subtree r c) \<inter> set (subtree r c') = {}"
  unfolding subtree_def by (rule siblings_disjoint)

lemma nr_loop_children:
  assumes f: "forest r" and a: "adjacency r delta D" and n: "node r n"
    and IH: "\<And>c s sid q. c \<in> set (children r n) \<Longrightarrow> length sid = length r \<Longrightarrow>
       sid ! nat c = b \<Longrightarrow> \<forall>m\<in>set (tl (subtree r c)). sid ! nat m \<noteq> b \<Longrightarrow>
       q + length (subtree r c) \<le> length s \<Longrightarrow>
       nr_loop b r D delta (c, n, s, sid, int q)
         = nr_loop b r D delta (n, c, blit s (Suc q) (tl (subtree r c)),
             stamp sid (tl (subtree r c)) b, int (q + length (tl (subtree r c))))"
  shows "donors r n = ps @ cs \<Longrightarrow> length sid = length r \<Longrightarrow> sid ! nat n = b \<Longrightarrow>
     \<forall>m\<in>set ps. sid ! nat m = b \<Longrightarrow>
     \<forall>c\<in>set cs. c \<noteq> n \<longrightarrow> (\<forall>m\<in>set (subtree r c). sid ! nat m \<noteq> b) \<Longrightarrow>
     n_prev \<noteq> n \<Longrightarrow>
     Suc q + length (concat (map (subtree r) (filter (\<lambda>c. c \<noteq> n) cs))) \<le> length s \<Longrightarrow>
     nr_loop b r D delta (n, n_prev, s, sid, int q)
       = nr_loop b r D delta (r ! nat n, n,
           blit s (Suc q) (concat (map (subtree r) (filter (\<lambda>c. c \<noteq> n) cs))),
           stamp sid (concat (map (subtree r) (filter (\<lambda>c. c \<noteq> n) cs))) b,
           int (q + length (concat (map (subtree r) (filter (\<lambda>c. c \<noteq> n) cs)))))"
proof (induction cs arbitrary: ps s sid q n_prev)
  case Nil
  have "nr_body b r D delta n (s, sid, int q) = Inr (r ! nat n, s, sid, int q)"
    using Nil.prems by (intro nr_body_down [OF a n]) simp_all
  with Nil.prems(6) show ?case
    by (simp add: nr_loop_step blit_Nil stamp_Nil)
next
  case (Cons c cs)
  let ?E = "concat (map (subtree r) (filter (\<lambda>c. c \<noteq> n) cs))"
  show ?case
  proof (cases "c = n")
    case True
    have "nr_loop b r D delta (n, n_prev, s, sid, int q)
       = nr_loop b r D delta (r ! nat n, n, blit s (Suc q) ?E, stamp sid ?E b, int (q + length ?E))"
      using Cons.prems True by (intro Cons.IH [of "ps @ [c]"]) simp_all
    with True show ?thesis by simp
  next
    case False
    let ?t = "subtree r c"
    let ?s2 = "blit s (Suc q) ?t"
    let ?sid2 = "stamp sid ?t b"
    have cd: "c \<in> set (donors r n)" using Cons.prems(1) by simp
    with False have ch: "c \<in> set (children r n)" by (simp add: children_def)
    then have nc: "node r c" "r ! nat c = n" by (simp_all add: in_children)
    have t: "?t = c # tl ?t" using subtree_unfold [OF f nc(1)] by simp
    have dt: "distinct ?t" by (rule distinct_subtree [OF f nc(1)])
    have tn: "\<forall>m\<in>set ?t. node r m" using subtree_nodes [OF f nc(1)] by blast
    have un: "\<forall>m\<in>set ?t. sid ! nat m \<noteq> b" using Cons.prems(5) False by simp
    have room: "Suc q + length ?t + length ?E \<le> length s" using Cons.prems(7) False by simp
    have lt: "length ?t = Suc (length (tl ?t))" using subtree_unfold [OF f nc(1)] by simp
    have q: "Suc q < length s" using room lt by linarith
    have cu: "sid ! nat c \<noteq> b" using un subtree_head [OF f nc(1)] by blast
    have 1: "nr_loop b r D delta (n, n_prev, s, sid, int q)
        = nr_loop b r D delta (c, n, s[Suc q := c], sid[nat c := b], int (Suc q))"
      using Cons.prems(6) nr_body_up [OF a n Cons.prems(2,1,4) cu q]
      by (intro nr_loop_step) simp_all
    have lc: "nat c < length sid" using nc(1) Cons.prems(2) node_nat by simp
    have "\<forall>m\<in>set (tl ?t). sid[nat c := b] ! nat m \<noteq> b"
    proof
      fix m assume m: "m \<in> set (tl ?t)"
      then have "m \<noteq> c" using dt t by (metis distinct.simps(2))
      moreover have "m \<in> set ?t" using m t by (metis list.set_intros(2))
      ultimately have "nat m \<noteq> nat c" "sid ! nat m \<noteq> b"
        using tn nc(1) un by (auto simp: node_def)
      then show "sid[nat c := b] ! nat m \<noteq> b" by simp
    qed
    moreover have "Suc q + length ?t \<le> length (s[Suc q := c])" using room by simp
    moreover have "sid[nat c := b] ! nat c = b" using lc by simp
    ultimately have 2: "nr_loop b r D delta (c, n, s[Suc q := c], sid[nat c := b], int (Suc q))
        = nr_loop b r D delta (n, c, blit (s[Suc q := c]) (Suc (Suc q)) (tl ?t),
             stamp (sid[nat c := b]) (tl ?t) b, int (Suc q + length (tl ?t)))"
      using Cons.prems(2) by (intro IH [OF ch]) simp_all
    have b2: "blit (s[Suc q := c]) (Suc (Suc q)) (tl ?t) = ?s2"
      using blit_Cons [OF q, of c "tl ?t"] t by simp
    have s2: "stamp (sid[nat c := b]) (tl ?t) b = ?sid2"
      using stamp_Cons [of sid c b "tl ?t"] t by simp
    have q2: "Suc q + length (tl ?t) = q + length ?t"
      using lt by linarith
    have stamped: "?sid2 ! nat m = b" if "node r m" "sid ! nat m = b \<or> m \<in> set ?t" for m
    proof -
      have "\<forall>x\<in>set ?t. 0 \<le> x" using tn by (simp add: node_def)
      moreover have "0 \<le> m" "nat m < length sid"
        using that(1) Cons.prems(2) node_nat [of r m] by (simp_all add: node_def)
      ultimately have "?sid2 ! nat m = (if m \<in> set ?t then b else sid ! nat m)"
        by (rule nth_stamp)
      with that(2) show ?thesis by auto
    qed
    have kept: "?sid2 ! nat m = sid ! nat m" if "node r m" "m \<notin> set ?t" for m
    proof -
      have "\<forall>x\<in>set ?t. 0 \<le> x" using tn by (simp add: node_def)
      moreover have "0 \<le> m" "nat m < length sid"
        using that(1) Cons.prems(2) node_nat [of r m] by (simp_all add: node_def)
      ultimately have "?sid2 ! nat m = (if m \<in> set ?t then b else sid ! nat m)"
        by (rule nth_stamp)
      with that(2) show ?thesis by simp
    qed
    have dn: "\<forall>m\<in>set (donors r n). node r m" by (simp add: set_donors)
    have 3: "nr_loop b r D delta (n, c, ?s2, ?sid2, int (q + length ?t))
        = nr_loop b r D delta (r ! nat n, n, blit ?s2 (Suc (q + length ?t)) ?E,
            stamp ?sid2 ?E b, int (q + length ?t + length ?E))"
    proof (rule Cons.IH [of "ps @ [c]"])
      show "donors r n = (ps @ [c]) @ cs" using Cons.prems(1) by simp
      show "length ?sid2 = length r" using Cons.prems(2) by simp
      show "?sid2 ! nat n = b" using n Cons.prems(3) by (intro stamped) simp_all
      show "\<forall>m\<in>set (ps @ [c]). ?sid2 ! nat m = b"
      proof
        fix m assume m: "m \<in> set (ps @ [c])"
        then have "node r m" using dn Cons.prems(1) by auto
        moreover have "sid ! nat m = b \<or> m \<in> set ?t"
          using m Cons.prems(4) subtree_head [OF f nc(1)] by auto
        ultimately show "?sid2 ! nat m = b" by (rule stamped)
      qed
      show "\<forall>c'\<in>set cs. c' \<noteq> n \<longrightarrow> (\<forall>m\<in>set (subtree r c'). ?sid2 ! nat m \<noteq> b)"
      proof (intro ballI impI)
        fix c' m assume c': "c' \<in> set cs" "c' \<noteq> n" and m: "m \<in> set (subtree r c')"
        have "distinct (donors r n)"
          using ascending_donors [of r n] by (simp add: strict_sorted_iff)
        then have "c' \<noteq> c" using Cons.prems(1) c'(1) by auto
        moreover have ch': "c' \<in> set (children r n)"
          using Cons.prems(1) c' by (simp add: children_def)
        ultimately have "set (subtree r c') \<inter> set ?t = {}"
          using ch by (intro subtree_siblings_disjoint [OF f]) simp_all
        with m have "m \<notin> set ?t" by blast
        moreover have "node r m"
          using subtree_nodes [OF f _ m] ch' by (simp add: in_children)
        ultimately have "?sid2 ! nat m = sid ! nat m" by (intro kept)
        with Cons.prems(5) c' m show "?sid2 ! nat m \<noteq> b" by simp
      qed
      show "c \<noteq> n" by (rule False)
      show "Suc (q + length ?t) + length ?E \<le> length ?s2"
        using room by (simp add: length_blit)
    qed
    have b3: "blit ?s2 (Suc (q + length ?t)) ?E = blit s (Suc q) (?t @ ?E)"
      using blit_append [of "Suc q" ?t s ?E] room by simp
    have s3: "stamp ?sid2 ?E b = stamp sid (?t @ ?E) b" by (rule stamp_append)
    have E: "concat (map (subtree r) (filter (\<lambda>c. c \<noteq> n) (c # cs))) = ?t @ ?E"
      using False by simp
    show ?thesis
      unfolding E 1 2 b2 s2 q2 3 b3 s3 by (simp add: add.assoc)
  qed
qed

lemma nr_loop_subtree:
  assumes f: "forest r" and a: "adjacency r delta D"
  shows "node r n \<Longrightarrow> length r < dist r n + k \<Longrightarrow> length sid = length r \<Longrightarrow>
     sid ! nat n = b \<Longrightarrow> \<forall>m\<in>set (tl (subtree r n)). sid ! nat m \<noteq> b \<Longrightarrow> n_prev \<noteq> n \<Longrightarrow>
     q + length (subtree r n) \<le> length s \<Longrightarrow>
     nr_loop b r D delta (n, n_prev, s, sid, int q)
       = nr_loop b r D delta (r ! nat n, n, blit s (Suc q) (tl (subtree r n)),
           stamp sid (tl (subtree r n)) b, int (q + length (tl (subtree r n))))"
proof (induction k arbitrary: n n_prev s sid q)
  case 0
  with dist_le [OF f, of n] show ?case by simp
next
  case (Suc k)
  have tl: "tl (subtree r n) = concat (map (subtree r) (filter (\<lambda>c. c \<noteq> n) (donors r n)))"
    using subtree_tl [OF f Suc.prems(1)] by (simp add: children_def)
  have IH: "nr_loop b r D delta (c, n, s', sid', int q')
         = nr_loop b r D delta (n, c, blit s' (Suc q') (tl (subtree r c)),
             stamp sid' (tl (subtree r c)) b, int (q' + length (tl (subtree r c))))"
    if "c \<in> set (children r n)" "length sid' = length r" "sid' ! nat c = b"
      "\<forall>m\<in>set (tl (subtree r c)). sid' ! nat m \<noteq> b" "q' + length (subtree r c) \<le> length s'"
    for c s' sid' q'
  proof -
    have c: "node r c" "r ! nat c = n" "n \<noteq> c" using that(1) by (auto simp: in_children)
    have "length r < dist r c + k" using Suc.prems(2) child_dist [OF f that(1)] by simp
    from Suc.IH [OF c(1) this that(2,3,4) c(3) that(5)] c(2) show ?thesis by simp
  qed
  have un: "\<forall>c\<in>set (donors r n). c \<noteq> n \<longrightarrow> (\<forall>m\<in>set (subtree r c). sid ! nat m \<noteq> b)"
    using Suc.prems(5) unfolding tl by auto
  have room: "Suc q + length (concat (map (subtree r) (filter (\<lambda>c. c \<noteq> n) (donors r n))))
      \<le> length s"
    using Suc.prems(7) subtree_unfold [OF f Suc.prems(1)] by (simp add: children_def)
  have e: "donors r n = [] @ donors r n" by simp
  have "\<forall>m\<in>set []. sid ! nat m = b" by simp
  from nr_loop_children [OF f a Suc.prems(1) IH e Suc.prems(3,4) this un Suc.prems(6) room]
  show ?case unfolding tl by assumption
qed



section \<open>Termination of the iterative builder\<close>

lemma unstamped_update:
  "j < length sid \<Longrightarrow> sid ! j \<noteq> b \<Longrightarrow> unstamped b (sid[j := b]) < unstamped b sid"
  unfolding unstamped_def
proof (induction sid arbitrary: j)
  case Nil
  then show ?case by simp
next
  case (Cons x sid)
  show ?case
  proof (cases j)
    case 0
    with Cons.prems show ?thesis by (simp add: le_imp_less_Suc)
  next
    case (Suc j')
    with Cons show ?thesis by auto
  qed
qed

lemma unstamped_setitem:
  assumes "getitem sid m = Inr x" "x \<noteq> b" "setitem sid m b = Inr sid'"
  shows "unstamped b sid' < unstamped b sid"
proof -
  from assms(1) obtain j where j: "wrap_index (length sid) m = Some j" "sid ! j = x"
    by (auto simp: getitem_def split: option.splits)
  then have "j < length sid" by (auto simp: wrap_index_def split: if_splits)
  moreover have "sid' = sid[j := b]" using assms(3) j(1) by (simp add: setitem_def)
  ultimately show ?thesis using j(2) assms(2) by (simp add: unstamped_update)
qed

lemma rbind_Inr_iff: "rbind x f = Inr y \<longleftrightarrow> (\<exists>v. x = Inr v \<and> f v = Inr y)"
  by (cases x) simp_all

lemma scan_donors_result:
  "scan_donors b D is (s, sid, inc) = Inr ((s', sid', inc'), mo) \<Longrightarrow>
     (mo = None \<and> sid' = sid) \<or>
     (\<exists>i\<in>set is. \<exists>m x. mo = Some m \<and> getitem D i = Inr m \<and> getitem sid m = Inr x \<and> x \<noteq> b \<and>
         setitem sid m b = Inr sid')"
proof (induction "is")
  case Nil
  then show ?case by simp
next
  case (Cons i "is")
  from Cons.prems obtain m x where mx: "getitem D i = Inr m" "getitem sid m = Inr x"
    by (auto simp: rbind_Inr_iff)
  show ?case
  proof (cases "x = b")
    case True
    with Cons.prems mx have "scan_donors b D is (s, sid, inc) = Inr ((s', sid', inc'), mo)"
      by simp
    from Cons.IH [OF this] show ?thesis by auto
  next
    case False
    with Cons.prems mx have "mo = Some m" "setitem sid m b = Inr sid'"
      by (auto simp: rbind_Inr_iff)
    with mx False show ?thesis by auto
  qed
qed

lemma getitem_position:
  "0 \<le> i \<Longrightarrow> i < int (length D) \<Longrightarrow> getitem D i = Inr m \<Longrightarrow> m = D ! nat i"
  by (simp add: getitem_node)

lemma nr_body_result:
  assumes a: "adjacency r delta D" and n: "node r n"
    and run: "nr_body b r D delta n (s, sid, inc) = Inr (n', s', sid', inc')"
  shows "(n' = r ! nat n \<and> sid' = sid) \<or> (node r n' \<and> unstamped b sid' < unstamped b sid)"
proof -
  let ?is = "py_range (delta ! nat n) (delta ! nat (n + 1))"
  from run adjacency_delta [OF a n] obtain res where
    scan: "scan_donors b D ?is (s, sid, inc) = Inr res"
    and res: "(case snd res of Some m \<Rightarrow> Inr (m, fst res)
               | None \<Rightarrow> rbind (getitem r n) (\<lambda>rn. Inr (rn, fst res))) = Inr (n', s', sid', inc')"
    by (auto simp: nr_body_def rbind_Inr_iff)
  obtain s1 sid1 inc1 mo where r1: "res = ((s1, sid1, inc1), mo)"
    by (metis prod_cases3 surj_pair)
  from scan_donors_result [OF scan [unfolded r1]]
  show ?thesis
  proof
    assume "mo = None \<and> sid1 = sid"
    with res r1 n show ?thesis by (auto simp: rbind_Inr_iff getitem_node node_def)
  next
    assume "\<exists>i\<in>set ?is. \<exists>m x. mo = Some m \<and> getitem D i = Inr m \<and> getitem sid m = Inr x \<and>
       x \<noteq> b \<and> setitem sid m b = Inr sid1"
    then obtain i m x where i: "i \<in> set ?is" and m: "mo = Some m" "getitem D i = Inr m"
      "getitem sid m = Inr x" "x \<noteq> b" "setitem sid m b = Inr sid1"
      by blast
    have "m = D ! nat i"
      using adjacency_positions [OF a n i] m(2) by (intro getitem_position) simp_all
    with i have "m \<in> set (segment D delta n)" by (auto simp: segment_def)
    then have "node r m" using adjacency_segment [OF a n] by (simp add: set_donors)
    moreover have "unstamped b sid1 < unstamped b sid" using m(3-5) by (rule unstamped_setitem)
    moreover have "n' = m" "sid' = sid1" using res r1 m(1) by simp_all
    ultimately show ?thesis by simp
  qed
qed

lemma nr_loop_terminates:
  assumes f: "forest r" and a: "adjacency r delta D"
  shows "node r n \<Longrightarrow> \<exists>res. nr_loop b r D delta (n, n_prev, s, sid, inc) = Some res"
proof (induction "unstamped b sid * Suc (length r) + dist r n"
    arbitrary: n n_prev s sid inc rule: less_induct)
  case less
  show ?case
  proof (cases "n = n_prev")
    case True
    then show ?thesis by (simp add: nr_loop_exit)
  next
    case False
    show ?thesis
    proof (cases "nr_body b r D delta n (s, sid, inc)")
      case (Inl e)
      with False show ?thesis by (subst nr_loop.simps) simp
    next
      case (Inr st)
      obtain n' s' sid' inc' where st: "st = (n', s', sid', inc')"
        by (metis prod_cases4)
      have step: "nr_loop b r D delta (n, n_prev, s, sid, inc)
          = nr_loop b r D delta (n', n, s', sid', inc')"
        using False Inr st by (intro nr_loop_step) simp_all
      from nr_body_result [OF a less.prems Inr [unfolded st]]
      show ?thesis
      proof
        assume down: "n' = r ! nat n \<and> sid' = sid"
        show ?thesis
        proof (cases "r ! nat n = n")
          case True
          with down step show ?thesis by (simp add: nr_loop_exit)
        next
          case False
          have "dist r n = Suc (dist r n')"
            using dist_step [OF f less.prems False] down by simp
          moreover have "node r n'"
            using down node_receiver [OF forest_valid [OF f] less.prems] by simp
          ultimately have "\<exists>res. nr_loop b r D delta (n', n, s', sid', inc') = Some res"
            using down by (intro less.hyps) simp_all
          with step show ?thesis by simp
        qed
      next
        assume up: "node r n' \<and> unstamped b sid' < unstamped b sid"
        then have "Suc (unstamped b sid') \<le> unstamped b sid" by simp
        then have "Suc (unstamped b sid') * Suc (length r) \<le> unstamped b sid * Suc (length r)"
          by (rule mult_le_mono1)
        moreover have "dist r n' \<le> length r" using up dist_le [OF f] by simp
        ultimately have "unstamped b sid' * Suc (length r) + dist r n'
            < unstamped b sid * Suc (length r) + dist r n"
          by simp
        then have "\<exists>res. nr_loop b r D delta (n', n, s', sid', inc') = Some res"
          using up by (intro less.hyps) simp_all
        with step show ?thesis by simp
      qed
    qed
  qed
qed



section \<open>The iterative builder on one root\<close>

lemma base_level_node: "base_level r b \<Longrightarrow> node r b"
  by (simp add: base_level_def)

lemma build_stack_nr_fresh:
  assumes f: "forest r" and a: "adjacency r delta D" and b: "base_level r b"
    and l: "length sid = length r"
    and un: "\<forall>m\<in>set (tl (subtree r b)). sid ! nat m \<noteq> b"
    and room: "q + length (subtree r b) \<le> length s"
  shows "build_stack_nr b r D delta s sid (int q)
           = Some (Inr (blit s q (subtree r b), stamp sid (subtree r b) b,
                        int q + int (length (subtree r b)) - 1))"
proof -
  let ?T = "tl (subtree r b)"
  have n: "node r b" and rb: "r ! nat b = b" using b by (simp_all add: base_level_def)
  have t: "subtree r b = b # ?T" using subtree_unfold [OF f n] by simp
  have lt: "length (subtree r b) = Suc (length ?T)" using subtree_unfold [OF f n] by simp
  have q: "q < length s" using room lt by linarith
  have lb: "nat b < length sid" using n l node_nat by simp
  have nn: "0 \<le> b" using n by (simp add: node_def)
  have dt: "distinct (subtree r b)" by (rule distinct_subtree [OF f n])
  have tn: "\<forall>m\<in>set (subtree r b). node r m" using subtree_nodes [OF f n] by blast
  have un1: "\<forall>m\<in>set ?T. sid[nat b := b] ! nat m \<noteq> b"
  proof
    fix m assume m: "m \<in> set ?T"
    then have "m \<noteq> b" using dt t by (metis distinct.simps(2))
    moreover have "m \<in> set (subtree r b)" using m t by (metis list.set_intros(2))
    ultimately have "nat m \<noteq> nat b" using tn nn by (auto simp: node_def)
    with un m show "sid[nat b := b] ! nat m \<noteq> b" by simp
  qed
  have "length r < dist r b + Suc (length r)" by simp
  from nr_loop_subtree [OF f a n this, of "sid[nat b := b]" b "- 1" q "s[q := b]"] un1 l lb nn room
  have "nr_loop b r D delta (b, - 1, s[q := b], sid[nat b := b], int q)
      = nr_loop b r D delta (b, b, blit (s[q := b]) (Suc q) ?T,
          stamp (sid[nat b := b]) ?T b, int (q + length ?T))"
    by (simp add: rb)
  also have "\<dots> = Some (Inr (blit (s[q := b]) (Suc q) ?T,
          stamp (sid[nat b := b]) ?T b, int (q + length ?T)))"
    by (rule nr_loop_exit)
  also have "blit (s[q := b]) (Suc q) ?T = blit s q (subtree r b)"
    using blit_Cons [OF q, of b ?T] t by simp
  also have "stamp (sid[nat b := b]) ?T b = stamp sid (subtree r b) b"
    using stamp_Cons [of sid b b ?T] t by simp
  also have "int (q + length ?T) = int q + int (length (subtree r b)) - 1"
    using lt by linarith
  finally show ?thesis
    using q lb nn by (simp add: build_stack_nr_def setitem_node)
qed

lemma build_stack_nr_again:
  assumes a: "adjacency r delta D" and b: "base_level r b"
    and l: "length sid = length r"
    and st: "\<forall>m\<in>set (donors r b). sid ! nat m = b"
    and q: "q < length s"
  shows "build_stack_nr b r D delta s sid (int q) = Some (Inr (s[q := b], sid, int q))"
proof -
  have n: "node r b" and rb: "r ! nat b = b" using b by (simp_all add: base_level_def)
  have lb: "nat b < length sid" using n l node_nat by simp
  have nn: "0 \<le> b" using n by (simp add: node_def)
  have "b \<in> set (donors r b)" using n rb by (simp add: set_donors)
  with st have "sid[nat b := b] = sid" by (simp add: list_update_same_conv lb)
  moreover have "nr_body b r D delta b (s[q := b], sid, int q) = Inr (b, s[q := b], sid, int q)"
    using nr_body_down [OF a n l st] rb by simp
  then have "nr_loop b r D delta (b, - 1, s[q := b], sid, int q)
      = nr_loop b r D delta (b, b, s[q := b], sid, int q)"
    using nn by (intro nr_loop_step) simp_all
  ultimately show ?thesis
    using q lb nn by (simp add: build_stack_nr_def setitem_node nr_loop_exit)
qed


section \<open>The driver in the mode \<open>'non-recursive'\<close>\<close>

lemma children_in_subtree:
  assumes "forest r" "node r n" "c \<in> set (children r n)"
  shows "c \<in> set (subtree r n)"
proof -
  have "node r c" using assms(3) by (simp add: in_children)
  then have "c \<in> set (subtree r c)" by (rule subtree_head [OF assms(1)])
  with assms(3) show ?thesis unfolding subtree_unfold [OF assms(1,2)] by auto
qed

lemma donors_in_subtree:
  assumes "forest r" "base_level r b" "m \<in> set (donors r b)"
  shows "m \<in> set (subtree r b)"
proof (cases "m = b")
  case True
  then show ?thesis using subtree_head [OF assms(1)] assms(2) by (simp add: base_level_def)
next
  case False
  with assms(3) have "m \<in> set (children r b)" by (simp add: children_def)
  then show ?thesis using children_in_subtree [OF assms(1)] assms(2) by (simp add: base_level_def)
qed

lemma length_subtree_le: "forest r \<Longrightarrow> node r n \<Longrightarrow> length (subtree r n) \<le> length r"
  using length_distinct_nodes [of "subtree r n" r] distinct_subtree [of r n] subtree_nodes [of r n]
  by blast

lemma nth_stamp_subtree:
  assumes f: "forest r" and n: "node r n" and i: "node r i" and l: "length sid = length r"
  shows "stamp sid (subtree r n) b ! nat i = (if i \<in> set (subtree r n) then b else sid ! nat i)"
proof (rule nth_stamp)
  show "\<forall>m\<in>set (subtree r n). 0 \<le> m" using subtree_nodes [OF f n] by (auto simp: node_def)
  show "0 \<le> i" using i by (simp add: node_def)
  show "nat i < length sid" using i l node_nat by simp
qed

lemma bstack_func_nr:
  "bstack_func limit ''non-recursive'' r D delta b (s, sid, inc) = build_stack_nr b r D delta s sid 0"
  by (simp add: bstack_func_def)

lemma build_all_nr:
  assumes f: "forest r" and a: "adjacency r delta D"
  shows "\<forall>b\<in>set bs. base_level r b \<Longrightarrow> length s = length r \<Longrightarrow> length sid = length r \<Longrightarrow>
     \<forall>i. node r i \<longrightarrow> sid ! nat i = (if root_of r i \<in> X then root_of r i else - 1) \<Longrightarrow>
     \<exists>s' sid' inc'.
        build_all (bstack_func limit ''non-recursive'' r D delta) bs (s, sid, inc)
          = Some (Inr (s', sid', inc')) \<and>
        length s' = length r \<and> length sid' = length r \<and>
        (\<forall>i. node r i \<longrightarrow> sid' ! nat i = (if root_of r i \<in> X \<union> set bs then root_of r i else - 1))"
proof (induction bs arbitrary: s sid inc X)
  case Nil
  then show ?case by simp
next
  case (Cons b bs)
  have b: "base_level r b" using Cons.prems(1) by simp
  then have n: "node r b" by (rule base_level_node)
  have nn: "0 \<le> b" using n by (simp add: node_def)
  have inv: "sid ! nat i = (if root_of r i \<in> X then root_of r i else - 1)" if "node r i" for i
    using Cons.prems(4) that by blast
  have root: "root_of r m = b" "node r m" if "m \<in> set (subtree r b)" for m
    using that set_subtree_root [OF f b] by auto
  have bs: "\<forall>b\<in>set bs. base_level r b" using Cons.prems(1) by simp
  show ?case
  proof (cases "b \<in> X")
    case True
    have "\<forall>m\<in>set (donors r b). sid ! nat m = b"
    proof
      fix m assume "m \<in> set (donors r b)"
      then have "m \<in> set (subtree r b)" by (rule donors_in_subtree [OF f b])
      with root [of m] inv [of m] True show "sid ! nat m = b" by simp
    qed
    moreover have "0 < length s" using n Cons.prems(2) by (auto simp: node_def)
    ultimately have step: "build_stack_nr b r D delta s sid (int 0) = Some (Inr (s[0 := b], sid, int 0))"
      by (intro build_stack_nr_again [OF a b Cons.prems(3)])
    have "length (s[0 := b]) = length r" using Cons.prems(2) by simp
    from Cons.IH [OF bs this Cons.prems(3,4), of "0 + 1"]
    obtain s' sid' inc' where
      "build_all (bstack_func limit ''non-recursive'' r D delta) bs (s[0 := b], sid, 0 + 1)
          = Some (Inr (s', sid', inc'))" "length s' = length r" "length sid' = length r"
      "\<forall>i. node r i \<longrightarrow> sid' ! nat i = (if root_of r i \<in> X \<union> set bs then root_of r i else - 1)"
      by blast
    moreover have "X \<union> set (b # bs) = X \<union> set bs" using True by auto
    ultimately show ?thesis using step by (simp add: bstack_func_nr)
  next
    case False
    let ?t = "subtree r b"
    let ?sid1 = "stamp sid ?t b"
    have "\<forall>m\<in>set (tl ?t). sid ! nat m \<noteq> b"
    proof
      fix m assume "m \<in> set (tl ?t)"
      then have "m \<in> set ?t" using subtree_unfold [OF f n] by simp
      with root [of m] inv [of m] False nn show "sid ! nat m \<noteq> b" by auto
    qed
    moreover have "0 + length ?t \<le> length s"
      using length_subtree_le [OF f n] Cons.prems(2) by simp
    ultimately have step: "build_stack_nr b r D delta s sid (int 0)
        = Some (Inr (blit s 0 ?t, ?sid1, int 0 + int (length ?t) - 1))"
      by (intro build_stack_nr_fresh [OF f a b Cons.prems(3)])
    have 1: "length (blit s 0 ?t) = length r"
      using length_subtree_le [OF f n] Cons.prems(2) by (simp add: length_blit)
    have 2: "length ?sid1 = length r" using Cons.prems(3) by simp
    have 3: "\<forall>i. node r i \<longrightarrow>
        ?sid1 ! nat i = (if root_of r i \<in> insert b X then root_of r i else - 1)"
    proof (intro allI impI)
      fix i assume i: "node r i"
      have "?sid1 ! nat i = (if i \<in> set ?t then b else sid ! nat i)"
        by (rule nth_stamp_subtree [OF f n i Cons.prems(3)])
      moreover have "i \<in> set ?t \<longleftrightarrow> root_of r i = b"
        using set_subtree_root [OF f b] i by auto
      ultimately show "?sid1 ! nat i = (if root_of r i \<in> insert b X then root_of r i else - 1)"
        using inv [OF i] by auto
    qed
    from Cons.IH [OF bs 1 2 3, of "int 0 + int (length ?t) - 1 + 1"]
    obtain s' sid' inc' where
      "build_all (bstack_func limit ''non-recursive'' r D delta) bs
          (blit s 0 ?t, ?sid1, int 0 + int (length ?t) - 1 + 1)
          = Some (Inr (s', sid', inc'))" "length s' = length r" "length sid' = length r"
      "\<forall>i. node r i \<longrightarrow>
         sid' ! nat i = (if root_of r i \<in> insert b X \<union> set bs then root_of r i else - 1)"
      by blast
    moreover have "X \<union> set (b # bs) = insert b X \<union> set bs" by auto
    ultimately show ?thesis using step by (simp add: bstack_func_nr)
  qed
qed

lemma order_nodes_numba_unfold:
  "order_nodes_numba limit r roots mode flag =
     (case temp_arrays r of
        Inl e \<Rightarrow> Some (Inl e)
      | Inr (nd, delta, D, w) \<Rightarrow>
         (case build_all (bstack_func limit mode r D delta) roots
                 (zeros (length r), replicate (length r) (- 1), 0) of
            None \<Rightarrow> None
          | Some (Inl e) \<Rightarrow> Some (Inl e)
          | Some (Inr (s, stack_id, inc)) \<Rightarrow>
              if flag \<and> mode \<noteq> ''recursive''
              then Some (Inr (Stack_and_ids s stack_id))
              else Some (Inr (Stack s))))"
  by (simp add: order_nodes_numba_def temp_arrays_def Let_def)



section \<open>The driver in the mode \<open>'recursive'\<close>\<close>

lemma bstack_func_recursive:
  "bstack_func limit ''recursive'' r D delta b (s, sid, inc)
     = Some (rbind (build_stack limit b D delta (s, inc)) (\<lambda>res. Inr (fst res, sid, snd res)))"
  by (simp add: bstack_func_def)

lemma build_all_recursive:
  assumes f: "forest r" and a: "adjacency r delta D" and l: "length r < limit"
  shows "\<forall>b\<in>set bs. base_level r b \<Longrightarrow>
     q + length (concat (map (subtree r) bs)) \<le> length s \<Longrightarrow>
     build_all (bstack_func limit ''recursive'' r D delta) bs (s, sid, int q)
       = Some (Inr (blit s q (concat (map (subtree r) bs)), sid,
                    int (q + length (concat (map (subtree r) bs)))))"
proof (induction bs arbitrary: s q)
  case Nil
  then show ?case by (simp add: blit_Nil)
next
  case (Cons b bs)
  let ?t = "subtree r b"
  let ?rest = "concat (map (subtree r) bs)"
  have n: "node r b" using Cons.prems(1) by (simp add: base_level_node)
  have room: "q + length ?t \<le> length s" using Cons.prems(2) by simp
  have "length r < dist r b + limit" using l by simp
  from build_stack_subtree [OF f a n this room]
  have call: "bstack_func limit ''recursive'' r D delta b (s, sid, int q)
      = Some (Inr (blit s q ?t, sid, int q + int (length ?t) - 1))"
    by (simp add: bstack_func_recursive)
  have "q + length ?t + length ?rest \<le> length (blit s q ?t)"
    using Cons.prems(2) by (simp add: length_blit)
  from Cons.IH [OF _ this] Cons.prems(1)
  have "build_all (bstack_func limit ''recursive'' r D delta) bs
         (blit s q ?t, sid, int (q + length ?t))
       = Some (Inr (blit (blit s q ?t) (q + length ?t) ?rest, sid,
                    int (q + length ?t + length ?rest)))"
    by simp
  moreover have "blit (blit s q ?t) (q + length ?t) ?rest = blit s q (?t @ ?rest)"
    using room by (rule blit_append)
  moreover have "int q + int (length ?t) - 1 + 1 = int (q + length ?t)" by simp
  ultimately show ?case using call by (simp add: add.assoc)
qed

lemma root_blocks_distinct:
  assumes f: "forest r" and d: "distinct bs" and b: "\<forall>b\<in>set bs. base_level r b"
  shows "distinct (concat (map (subtree r) bs))"
proof (rule distinct_concat_map [OF d])
  fix c assume "c \<in> set bs"
  then show "distinct (subtree r c)" using b by (intro distinct_subtree [OF f]) (simp add: base_level_node)
next
  fix c c' assume c: "c \<in> set bs" "c' \<in> set bs" "c \<noteq> c'"
  show "set (subtree r c) \<inter> set (subtree r c') = {}"
    using set_subtree_root [OF f, of c] set_subtree_root [OF f, of c'] b c by auto
qed

lemma root_blocks_nodes:
  assumes f: "forest r" and b: "\<forall>b\<in>set bs. base_level r b"
  shows "\<forall>m\<in>set (concat (map (subtree r) bs)). node r m"
  using set_subtree_root [OF f] b by auto

lemma blit_whole: "length xs = length s \<Longrightarrow> blit s 0 xs = xs"
  by (simp add: blit_def)

text \<open>
  In the mode \<open>'recursive'\<close>, with distinct base-level roots and more nested calls
  allowed than there are nodes, the driver writes the preorders of the roots' subtrees
  one after the other from position \<open>0\<close>.
\<close>

theorem recursive_order_blocks:
  assumes "forest r" and "length r < limit" and "distinct roots"
    and "\<forall>b\<in>set roots. base_level r b"
  shows "order_nodes_numba limit r roots ''recursive'' flag
           = Some (Inr (Stack (blit (zeros (length r)) 0 (concat (map (subtree r) roots)))))"
proof -
  from temp_arrays_adjacency [OF forest_valid [OF assms(1)]]
  obtain nd delta D w where t: "temp_arrays r = Inr (nd, delta, D, w)" and a: "adjacency r delta D"
    by blast
  have "length (concat (map (subtree r) roots)) \<le> length r"
    using root_blocks_distinct [OF assms(1,3,4)] root_blocks_nodes [OF assms(1,4)]
    by (rule length_distinct_nodes)
  then have "0 + length (concat (map (subtree r) roots)) \<le> length (zeros (length r))" by simp
  from build_all_recursive [OF assms(1) a assms(2,4) this, of "replicate (length r) (- 1)"] t
  show ?thesis by (simp add: order_nodes_numba_unfold)
qed

text \<open>
  When the roots are exactly the base-level nodes, once each, that order is a
  permutation of \<open>[0, N)\<close>.
\<close>

lemma all_roots_cover:
  assumes f: "forest r" and s: "set roots = {b. base_level r b}"
  shows "set (concat (map (subtree r) roots)) = {i. node r i}"
proof (intro set_eqI iffI)
  fix i assume "i \<in> set (concat (map (subtree r) roots))"
  then show "i \<in> {i. node r i}" using root_blocks_nodes [OF f, of roots] s by blast
next
  fix i assume "i \<in> {i. node r i}"
  then have i: "node r i" by simp
  then have "base_level r (root_of r i)" unfolding root_of_def by (rule forest_reaches [OF f])
  moreover from this have "i \<in> set (subtree r (root_of r i))"
    using set_subtree_root [OF f] i by blast
  ultimately show "i \<in> set (concat (map (subtree r) roots))" using s by auto
qed

theorem recursive_order_permutation:
  assumes "forest r" and "length r < limit" and "distinct roots"
    and "set roots = {b. base_level r b}"
  shows "\<exists>S. order_nodes_numba limit r roots ''recursive'' flag = Some (Inr (Stack S))
     \<and> S = concat (map (subtree r) roots)
     \<and> length S = length r \<and> distinct S \<and> set S = {i. 0 \<le> i \<and> i < int (length r)}"
proof -
  let ?P = "concat (map (subtree r) roots)"
  have b: "\<forall>b\<in>set roots. base_level r b" using assms(4) by simp
  have d: "distinct ?P" by (rule root_blocks_distinct [OF assms(1,3) b])
  have s: "set ?P = {i. 0 \<le> i \<and> i < int (length r)}"
    using all_roots_cover [OF assms(1,4)] by (simp add: node_def)
  have "set ?P = {0..<int (length r)}" using s by auto
  then have "card (set ?P) = length r" by simp
  moreover have "card (set ?P) = length ?P" using d by (rule distinct_card)
  ultimately have l: "length ?P = length r" by (simp only:)
  then have "blit (zeros (length r)) 0 ?P = ?P" by (intro blit_whole) simp
  with recursive_order_blocks [OF assms(1,2,3) b, of flag] d s l show ?thesis by simp
qed

text \<open>In a preorder every node other than the first comes after its receiver.\<close>

lemma preorder_receiver_first:
  "m \<in> set (preorder r k n) \<Longrightarrow> m \<noteq> n \<Longrightarrow>
     \<exists>ys zs ws. preorder r k n = ys @ (r ! nat m) # zs @ m # ws"
proof (induction k arbitrary: n)
  case 0
  then show ?case by simp
next
  case (Suc k)
  from Suc.prems obtain c where c: "c \<in> set (children r n)" "m \<in> set (preorder r k c)"
    by auto
  from split_list [OF c(1)] obtain cs1 cs2 where cs: "children r n = cs1 @ c # cs2" by blast
  define A where "A = concat (map (preorder r k) cs1)"
  define B where "B = concat (map (preorder r k) cs2)"
  have whole: "preorder r (Suc k) n = n # A @ preorder r k c @ B"
    by (simp add: cs A_def B_def)
  show ?case
  proof (cases "m = c")
    case True
    have rc: "r ! nat c = n" using c(1) by (simp add: in_children)
    obtain X where X: "preorder r k c = c # X" using c(2) by (cases k) auto
    have "preorder r (Suc k) n = [] @ (r ! nat m) # A @ m # (X @ B)"
      unfolding whole X using True rc by simp
    then show ?thesis by blast
  next
    case False
    from Suc.IH [OF c(2) False] obtain ys zs ws where
      "preorder r k c = ys @ (r ! nat m) # zs @ m # ws" by blast
    then have "preorder r (Suc k) n = (n # A @ ys) @ (r ! nat m) # zs @ m # (ws @ B)"
      unfolding whole by simp
    then show ?thesis by blast
  qed
qed

theorem recursive_order_receiver_first:
  assumes "forest r" and "length r < limit" and "distinct roots"
    and "set roots = {b. base_level r b}"
    and "node r i" and "r ! nat i \<noteq> i"
  shows "\<exists>ys zs ws. order_nodes_numba limit r roots ''recursive'' flag
           = Some (Inr (Stack (ys @ (r ! nat i) # zs @ i # ws)))"
proof -
  let ?b = "root_of r i"
  have b: "base_level r ?b" unfolding root_of_def by (rule forest_reaches [OF assms(1,5)])
  then have "i \<in> set (subtree r ?b)" using set_subtree_root [OF assms(1)] assms(5) by blast
  moreover have "i \<noteq> ?b" using b assms(6) by (auto simp: base_level_def)
  ultimately obtain ys zs ws where t: "subtree r ?b = ys @ (r ! nat i) # zs @ i # ws"
    unfolding subtree_def using preorder_receiver_first by blast
  have "?b \<in> set roots" using b assms(4) by simp
  from split_list [OF this] obtain rs1 rs2 where rs: "roots = rs1 @ ?b # rs2" by blast
  define A where "A = concat (map (subtree r) rs1)"
  define B where "B = concat (map (subtree r) rs2)"
  have "concat (map (subtree r) roots) = A @ subtree r ?b @ B"
    by (subst rs) (simp add: A_def B_def)
  then have "concat (map (subtree r) roots) = (A @ ys) @ (r ! nat i) # zs @ i # (ws @ B)"
    unfolding t by simp
  moreover from recursive_order_permutation [OF assms(1-4), of flag]
  have "order_nodes_numba limit r roots ''recursive'' flag
      = Some (Inr (Stack (concat (map (subtree r) roots))))" by blast
  ultimately show ?thesis by metis
qed

text \<open>
  With a single root the two modes agree: the iterative builder is started at position
  \<open>0\<close>, where the recursive one starts too.
\<close>

theorem single_root_modes_agree:
  assumes "forest r" and "length r < limit" and "base_level r b"
  shows "order_nodes_numba limit r [b] ''non-recursive'' False
           = Some (Inr (Stack (blit (zeros (length r)) 0 (subtree r b))))"
    and "order_nodes_numba limit r [b] ''recursive'' False
           = Some (Inr (Stack (blit (zeros (length r)) 0 (subtree r b))))"
proof -
  from temp_arrays_adjacency [OF forest_valid [OF assms(1)]]
  obtain nd delta D w where t: "temp_arrays r = Inr (nd, delta, D, w)" and a: "adjacency r delta D"
    by blast
  have n: "node r b" using assms(3) by (rule base_level_node)
  have nn: "0 \<le> b" using n by (simp add: node_def)
  have "\<forall>m\<in>set (tl (subtree r b)). replicate (length r) (- 1) ! nat m \<noteq> b"
  proof
    fix m assume "m \<in> set (tl (subtree r b))"
    then have "m \<in> set (subtree r b)" using subtree_unfold [OF assms(1) n] by simp
    then have "nat m < length r" using subtree_nodes [OF assms(1) n] node_nat by blast
    with nn show "replicate (length r) (- 1) ! nat m \<noteq> b" by simp
  qed
  moreover have "0 + length (subtree r b) \<le> length (zeros (length r))"
    using length_subtree_le [OF assms(1) n] by simp
  ultimately have "build_stack_nr b r D delta (zeros (length r)) (replicate (length r) (- 1)) (int 0)
      = Some (Inr (blit (zeros (length r)) 0 (subtree r b),
                   stamp (replicate (length r) (- 1)) (subtree r b) b,
                   int 0 + int (length (subtree r b)) - 1))"
    by (intro build_stack_nr_fresh [OF assms(1) a assms(3)]) simp_all
  with t show "order_nodes_numba limit r [b] ''non-recursive'' False
           = Some (Inr (Stack (blit (zeros (length r)) 0 (subtree r b))))"
    by (simp add: order_nodes_numba_unfold bstack_func_nr)
  show "order_nodes_numba limit r [b] ''recursive'' False
           = Some (Inr (Stack (blit (zeros (length r)) 0 (subtree r b))))"
    using recursive_order_blocks [OF assms(1,2), of "[b]" False] assms(3) by simp
qed


section \<open>The contract of the adjacency builder\<close>

text \<open>
  C5. For receivers with all values in \<open>[0, N)\<close> the adjacency builder, run on fresh
  zero arrays as the driver does, returns \<open>delta\<close> of length \<open>N + 1\<close> and \<open>D\<close> of length
  \<open>N\<close>; \<open>delta\<close> is non-decreasing from \<open>0\<close> to \<open>delta[N] = N\<close>, and for every node \<open>n\<close>
  the cells \<open>D[delta[n]:delta[n+1]]\<close> hold exactly the nodes whose receiver is \<open>n\<close>, in
  strictly ascending order.
\<close>

theorem adjacency_builder_contract:
  assumes "valid_receivers r"
  shows "\<exists>nd delta D w. temp_arrays r = Inr (nd, delta, D, w) \<and>
     length delta = length r + 1 \<and> length D = length r \<and>
     sorted delta \<and> delta ! 0 = 0 \<and> delta ! length r = int (length r) \<and>
     (\<forall>n\<in>set (py_range 0 (int (length r))).
        set (segment D delta n) = {i. node r i \<and> r ! nat i = n} \<and>
        sorted_wrt (<) (segment D delta n))"
proof -
  from temp_arrays_ok [OF assms] obtain nd delta D w where
    run: "temp_arrays r = Inr (nd, delta, D, w)"
    and len: "length delta = length r + 1" "length D = length r"
    and cf: "\<forall>j\<le>length r. delta ! j = int (below r j)"
    and seg: "\<forall>x<length r. segment D delta (int x) = donors r (int x)"
    by blast
  have "sorted delta"
    unfolding sorted_iff_nth_mono
  proof (intro allI impI)
    fix i j assume "i \<le> j" "j < length delta"
    then show "delta ! i \<le> delta ! j"
      using cf len(1) below_mono [of i j r] by simp
  qed
  moreover have "delta ! 0 = 0" using cf below_0 [OF assms] by simp
  moreover have "delta ! length r = int (length r)" using cf below_all [OF assms] by simp
  moreover have "\<forall>n\<in>set (py_range 0 (int (length r))).
        set (segment D delta n) = {i. node r i \<and> r ! nat i = n} \<and>
        sorted_wrt (<) (segment D delta n)"
  proof
    fix n assume "n \<in> set (py_range 0 (int (length r)))"
    then obtain x where x: "n = int x" "x < length r"
      by (auto simp: py_range_0)
    with seg have "segment D delta n = donors r n" by simp
    then show "set (segment D delta n) = {i. node r i \<and> r ! nat i = n} \<and>
        sorted_wrt (<) (segment D delta n)"
      by (simp add: set_donors ascending_donors)
  qed
  ultimately show ?thesis using run len by blast
qed

theorem adjacency_builder_contract_witness:
  "valid_receivers [1, 0, 1] \<and>
   (\<exists>nd delta D w. temp_arrays [1, 0, 1] = Inr (nd, delta, D, w) \<and>
     length delta = length [1, 0, 1 :: int] + 1 \<and> length D = length [1, 0, 1 :: int] \<and>
     sorted delta \<and> delta ! 0 = 0 \<and> delta ! length [1, 0, 1 :: int] = int (length [1, 0, 1 :: int]) \<and>
     (\<forall>n\<in>set (py_range 0 (int (length [1, 0, 1 :: int]))).
        set (segment D delta n) = {i. node [1, 0, 1] i \<and> [1, 0, 1] ! nat i = n} \<and>
        sorted_wrt (<) (segment D delta n)))"
proof -
  have v: "valid_receivers [1, 0, 1]"
    by (simp add: valid_receivers_def node_def)
  from v adjacency_builder_contract [OF v] show ?thesis by blast
qed


section \<open>The iterative builder is total\<close>

text \<open>
  C7. On a forest, with \<open>delta\<close> and \<open>D\<close> as the adjacency builder computes them, the
  iterative builder started at a base-level node \<open>b\<close> returns: its \<open>while\<close> loop ends,
  whatever the contents of \<open>s\<close> and \<open>stack_id\<close> and the write position are (the
  result may be an \<open>IndexError\<close> of an array access).
\<close>

theorem build_stack_nr_total:
  assumes "forest r" and "temp_arrays r = Inr (nd, delta, D, w)" and "base_level r b"
  shows "\<exists>res. build_stack_nr b r D delta s stack_id inc = Some res"
proof -
  from temp_arrays_adjacency [OF forest_valid [OF assms(1)]] assms(2)
  have a: "adjacency r delta D" by auto
  have n: "node r b" using assms(3) by (rule base_level_node)
  show ?thesis
  proof (cases "setitem s inc b")
    case (Inl e)
    then show ?thesis by (simp add: build_stack_nr_def)
  next
    case s1: (Inr s1)
    show ?thesis
    proof (cases "setitem stack_id b b")
      case (Inl e)
      with s1 show ?thesis by (simp add: build_stack_nr_def)
    next
      case (Inr sid1)
      with s1 nr_loop_terminates [OF assms(1) a n, of b "- 1" s1 sid1 inc]
      show ?thesis by (simp add: build_stack_nr_def)
    qed
  qed
qed

theorem build_stack_nr_total_witness:
  "forest [1, 1, 1] \<and> temp_arrays [1, 1, 1] = Inr ([0, 3, 0], [0, 0, 3, 3], [0, 1, 2], [0, 3, 0])
   \<and> base_level [1, 1, 1] 1
   \<and> (\<exists>res. build_stack_nr 1 [1, 1, 1] [0, 1, 2] [0, 0, 3, 3] [0, 0, 0] [- 1, - 1, - 1] 0 = Some res)"
proof -
  have f: "forest [1, 1, 1]" by code_simp
  have t: "temp_arrays [1, 1, 1] = Inr ([0, 3, 0], [0, 0, 3, 3], [0, 1, 2], [0, 3, 0])"
    by code_simp
  have b: "base_level [1, 1, 1] 1" by code_simp
  from f t b build_stack_nr_total [OF f t b, of "[0, 0, 0]" "[- 1, - 1, - 1]" 0]
  show ?thesis by simp
qed


section \<open>The root-membership array\<close>

text \<open>
  C9. On a forest, with every supplied root a base-level node, the driver in the mode
  \<open>'non-recursive'\<close> returns a \<open>stack_id\<close> array that holds, for every node whose
  base-level root was supplied, that root, and \<open>-1\<close> for every other node. One
  array is threaded through all the roots.
\<close>

theorem stack_id_maps_nodes_to_roots:
  assumes "forest r" and "\<forall>b\<in>set roots. base_level r b"
  shows "\<exists>s stack_id.
     order_nodes_numba limit r roots ''non-recursive'' True = Some (Inr (Stack_and_ids s stack_id)) \<and>
     length stack_id = length r \<and>
     (\<forall>i\<in>set (py_range 0 (int (length r))).
        stack_id ! nat i = (if root_of r i \<in> set roots then root_of r i else - 1))"
proof -
  from temp_arrays_adjacency [OF forest_valid [OF assms(1)]]
  obtain nd delta D w where t: "temp_arrays r = Inr (nd, delta, D, w)" and a: "adjacency r delta D"
    by blast
  have "\<forall>i. node r i \<longrightarrow> replicate (length r) (- 1) ! nat i
      = (if root_of r i \<in> {} then root_of r i else - 1)"
    using node_nat by simp
  from build_all_nr [OF assms(1) a assms(2) _ _ this, of "zeros (length r)" limit 0]
  obtain s sid inc where
    run: "build_all (bstack_func limit ''non-recursive'' r D delta) roots
       (zeros (length r), replicate (length r) (- 1), 0) = Some (Inr (s, sid, inc))"
    and l: "length sid = length r"
    and m: "\<forall>i. node r i \<longrightarrow> sid ! nat i = (if root_of r i \<in> set roots then root_of r i else - 1)"
    by auto
  have "order_nodes_numba limit r roots ''non-recursive'' True = Some (Inr (Stack_and_ids s sid))"
    using t run by (simp add: order_nodes_numba_unfold)
  moreover have "\<forall>i\<in>set (py_range 0 (int (length r))).
        sid ! nat i = (if root_of r i \<in> set roots then root_of r i else - 1)"
    using m by (simp add: set_py_range node_def)
  ultimately show ?thesis using l by blast
qed

theorem stack_id_maps_nodes_to_roots_witness:
  "forest [0, 0, 2, 2, 4] \<and> base_level [0, 0, 2, 2, 4] 2 \<and> base_level [0, 0, 2, 2, 4] 0 \<and>
   (\<exists>s stack_id.
     order_nodes_numba 1000 [0, 0, 2, 2, 4] [2, 0] ''non-recursive'' True
       = Some (Inr (Stack_and_ids s stack_id)) \<and>
     length stack_id = length [0, 0, 2, 2, 4 :: int] \<and>
     (\<forall>i\<in>set (py_range 0 (int (length [0, 0, 2, 2, 4 :: int]))).
        stack_id ! nat i = (if root_of [0, 0, 2, 2, 4] i \<in> set [2, 0]
                            then root_of [0, 0, 2, 2, 4] i else - 1)))"
proof -
  have f: "forest [0, 0, 2, 2, 4]" by code_simp
  have b: "\<forall>b\<in>set [2, 0]. base_level [0, 0, 2, 2, 4] b" by code_simp
  from f b stack_id_maps_nodes_to_roots [OF f b, of 1000] show ?thesis by simp
qed



section \<open>The contract of the recursive builder\<close>

text \<open>
  C10, as amended. On a forest, with \<open>delta\<close> and \<open>D\<close> as the adjacency builder
  computes them, a base-level root \<open>b\<close>, more nested calls allowed than there are
  nodes, and a write position \<open>inc \<ge> 0\<close> that leaves room for the subtree of \<open>b\<close> in
  \<open>s\<close>, the recursive builder writes the depth-first preorder of the subtree of \<open>b\<close> at
  the positions \<open>inc, inc + 1, \<dots>\<close> and returns the position of the last cell it wrote,
  \<open>inc\<close> plus the number of nodes of the subtree minus one.
\<close>

theorem build_stack_writes_preorder:
  assumes "forest r" and "temp_arrays r = Inr (nd, delta, D, w)" and "base_level r b"
    and "length r < limit" and "0 \<le> inc" and "inc + int (length (subtree r b)) \<le> int (length s)"
  shows "build_stack limit b D delta (s, inc)
           = Inr (blit s (nat inc) (subtree r b), inc + int (length (subtree r b)) - 1)"
proof -
  from temp_arrays_adjacency [OF forest_valid [OF assms(1)]] assms(2)
  have a: "adjacency r delta D" by auto
  have n: "node r b" using assms(3) by (rule base_level_node)
  have "length r < dist r b + limit" using assms(4) by simp
  moreover have "nat inc + length (subtree r b) \<le> length s" using assms(5,6) by linarith
  ultimately have "build_stack limit b D delta (s, int (nat inc))
      = Inr (blit s (nat inc) (subtree r b), int (nat inc) + int (length (subtree r b)) - 1)"
    by (rule build_stack_subtree [OF assms(1) a n])
  with assms(5) show ?thesis by simp
qed

theorem build_stack_writes_preorder_witness:
  "forest [1, 1, 1] \<and> temp_arrays [1, 1, 1] = Inr ([0, 3, 0], [0, 0, 3, 3], [0, 1, 2], [0, 3, 0])
   \<and> base_level [1, 1, 1] 1 \<and> length [1, 1, 1 :: int] < 1000 \<and> (0 :: int) \<le> 0
   \<and> 0 + int (length (subtree [1, 1, 1] 1)) \<le> int (length [7, 7, 7 :: int])
   \<and> build_stack 1000 1 [0, 1, 2] [0, 0, 3, 3] ([7, 7, 7], 0)
       = Inr (blit [7, 7, 7] (nat 0) (subtree [1, 1, 1] 1),
              0 + int (length (subtree [1, 1, 1] 1)) - 1)"
proof -
  have f: "forest [1, 1, 1]" by code_simp
  have t: "temp_arrays [1, 1, 1] = Inr ([0, 3, 0], [0, 0, 3, 3], [0, 1, 2], [0, 3, 0])"
    by code_simp
  have b: "base_level [1, 1, 1] 1" by code_simp
  have l: "length [1, 1, 1 :: int] < 1000" by simp
  have i: "(0 :: int) \<le> 0" by simp
  have r: "0 + int (length (subtree [1, 1, 1] 1)) \<le> int (length [7, 7, 7 :: int])"
    by code_simp
  from f t b l i r build_stack_writes_preorder [OF f t b l i r] show ?thesis by simp
qed

text \<open>
  C10 as stated fails: on the one-node forest \<open>[0]\<close> the builder started at position \<open>0\<close>
  returns \<open>0\<close>, the position it wrote, and not \<open>0 + 1\<close>, the next free position. The
  driver adds the one.
\<close>

theorem build_stack_returns_last_written:
  "forest [0] \<and> base_level [0] 0 \<and> temp_arrays [0] = Inr ([1], [0, 1], [0], [1])
   \<and> subtree [0] 0 = [0]
   \<and> build_stack 1000 0 [0] [0, 1] ([7], 0) = Inr ([0], 0)
   \<and> (0 :: int) \<noteq> 0 + int (length (subtree [0] 0))"
  by code_simp

section \<open>Receivers outside \<open>[0, N)\<close>\<close>

lemma nd_loop_wraps:
  assumes w: "\<forall>x\<in>set r. - int (length r) \<le> x \<and> x < int (length r)"
  shows "length nd = length r \<Longrightarrow> \<forall>i\<in>set is. i < length r \<Longrightarrow>
     \<exists>nd'. for_loop (map int is) (nd_step r) nd = Inr nd' \<and> length nd' = length r \<and>
       (\<forall>x<length r. nd' ! x = nd ! x
          + int (length (filter (\<lambda>i. r ! i = int x \<or> r ! i = int x - int (length r)) is)))"
proof (induction "is" arbitrary: nd)
  case Nil
  then show ?case by simp
next
  case (Cons i "is")
  from Cons.prems have i: "i < length r" by simp
  then have ri: "- int (length r) \<le> r ! i" "r ! i < int (length r)" using w by simp_all
  define j where "j = (if 0 \<le> r ! i then nat (r ! i) else nat (int (length r) + r ! i))"
  have j: "j < length r" using ri unfolding j_def by (cases "0 \<le> r ! i") simp_all
  have wi: "wrap_index (length nd) (r ! i) = Some j"
    using ri Cons.prems(1) unfolding wrap_index_def j_def by (cases "0 \<le> r ! i") simp_all
  have jx: "j = x \<longleftrightarrow> r ! i = int x \<or> r ! i = int x - int (length r)" if "x < length r" for x
    using ri that unfolding j_def by (cases "0 \<le> r ! i") auto
  let ?nd1 = "nd[j := nd ! j + 1]"
  have g: "getitem r (int i) = Inr (r ! i)" using i by (simp add: getitem_node)
  have g': "getitem nd (r ! i) = Inr (nd ! j)" using wi by (simp add: getitem_def)
  have s': "setitem nd (r ! i) v = Inr (nd[j := v])" for v using wi by (simp add: setitem_def)
  have step: "nd_step r (int i) nd = Inr ?nd1"
    by (simp add: nd_step_def g g' s')
  have "length ?nd1 = length r" using Cons.prems(1) by simp
  from Cons.IH [OF this] Cons.prems(2)
  obtain nd' where nd': "for_loop (map int is) (nd_step r) ?nd1 = Inr nd'"
    "length nd' = length r"
    "\<forall>x<length r. nd' ! x = ?nd1 ! x
       + int (length (filter (\<lambda>i. r ! i = int x \<or> r ! i = int x - int (length r)) is))"
    by auto
  have "\<forall>x<length r. nd' ! x = nd ! x
     + int (length (filter (\<lambda>i. r ! i = int x \<or> r ! i = int x - int (length r)) (i # is)))"
  proof (intro allI impI)
    fix x assume x: "x < length r"
    show "nd' ! x = nd ! x
     + int (length (filter (\<lambda>i. r ! i = int x \<or> r ! i = int x - int (length r)) (i # is)))"
    proof (cases "j = x")
      case True
      then have "?nd1 ! x = nd ! x + 1" using x Cons.prems(1) by simp
      moreover have "r ! i = int x \<or> r ! i = int x - int (length r)"
        using jx [OF x] True by simp
      ultimately show ?thesis using nd'(3) x by simp
    next
      case False
      then have "?nd1 ! x = nd ! x" by simp
      moreover have "\<not> (r ! i = int x \<or> r ! i = int x - int (length r))"
        using jx [OF x] False by simp
      ultimately show ?thesis using nd'(3) x by simp
    qed
  qed
  with step nd'(1,2) show ?case by simp
qed

lemma length_filter_indices:
  "length (filter (\<lambda>i. P (r ! i)) [0..<length r]) = length (filter P r)"
proof -
  have "filter P (map ((!) r) [0..<length r]) = map ((!) r) (filter (\<lambda>i. P (r ! i)) [0..<length r])"
    by (simp add: filter_map comp_def)
  then have "length (filter P (map ((!) r) [0..<length r]))
      = length (filter (\<lambda>i. P (r ! i)) [0..<length r])"
    by simp
  then show ?thesis by (simp only: map_nth)
qed

text \<open>
  C8, as amended. The histogram pass of the adjacency builder validates nothing: for
  every receiver array whose values all lie in \<open>[-N, N)\<close>, those with values outside
  \<open>[0, N)\<close> included, the pass raises no error, and it counts a value \<open>x < 0\<close> as a
  donor of node \<open>N + x\<close>: \<open>nd[n]\<close> is the number of receiver values equal to \<open>n\<close> or to
  \<open>n - N\<close>.
\<close>

theorem histogram_pass_wraps_receivers:
  assumes "\<forall>x\<in>set r. - int (length r) \<le> x \<and> x < int (length r)"
  shows "\<exists>nd. for_loop (py_range 0 (int (length r))) (nd_step r) (zeros (length r)) = Inr nd
     \<and> length nd = length r
     \<and> (\<forall>n\<in>set (py_range 0 (int (length r))).
          nd ! nat n = int (length (filter (\<lambda>x. x = n \<or> x = n - int (length r)) r)))"
proof -
  have "\<forall>i\<in>set [0..<length r]. i < length r" by simp
  from nd_loop_wraps [OF assms length_zeros this]
  obtain nd where nd: "for_loop (map int [0..<length r]) (nd_step r) (zeros (length r)) = Inr nd"
    "length nd = length r"
    "\<forall>x<length r. nd ! x = zeros (length r) ! x
       + int (length (filter (\<lambda>i. r ! i = int x \<or> r ! i = int x - int (length r)) [0..<length r]))"
    by blast
  have "\<forall>n\<in>set (py_range 0 (int (length r))).
          nd ! nat n = int (length (filter (\<lambda>x. x = n \<or> x = n - int (length r)) r))"
  proof
    fix n assume "n \<in> set (py_range 0 (int (length r)))"
    then obtain x where x: "n = int x" "x < length r" by (auto simp: py_range_0)
    have "nd ! x = int (length (filter (\<lambda>i. r ! i = int x \<or> r ! i = int x - int (length r))
        [0..<length r]))"
      using nd(3) x(2) by simp
    also have "\<dots> = int (length (filter (\<lambda>v. v = int x \<or> v = int x - int (length r)) r))"
      using length_filter_indices [of "\<lambda>v. v = int x \<or> v = int x - int (length r)" r] by simp
    finally show "nd ! nat n = int (length (filter (\<lambda>x. x = n \<or> x = n - int (length r)) r))"
      using x(1) by simp
  qed
  with nd(1,2) show ?thesis unfolding py_range_0 by blast
qed

theorem histogram_pass_wraps_receivers_witness:
  "\<not> valid_receivers [- 2, 1]
   \<and> list_all (\<lambda>x. - int (length [- 2, 1 :: int]) \<le> x \<and> x < int (length [- 2, 1 :: int]))
        [- 2, 1]
   \<and> (\<exists>nd. for_loop (py_range 0 (int (length [- 2, 1 :: int]))) (nd_step [- 2, 1])
              (zeros (length [- 2, 1 :: int])) = Inr nd
     \<and> length nd = length [- 2, 1 :: int]
     \<and> (\<forall>n\<in>set (py_range 0 (int (length [- 2, 1 :: int]))).
          nd ! nat n = int (length (filter (\<lambda>x. x = n \<or> x = n - int (length [- 2, 1 :: int]))
                                     [- 2, 1]))))"
proof -
  have v: "\<not> valid_receivers [- 2, 1]" by code_simp
  have h: "\<forall>x\<in>set [- 2, 1 :: int].
      - int (length [- 2, 1 :: int]) \<le> x \<and> x < int (length [- 2, 1 :: int])"
    by simp
  from v h histogram_pass_wraps_receivers [OF h] show ?thesis by simp
qed

text \<open>
  C8 as stated fails: in the receivers \<open>[-2, 1]\<close> the value \<open>-2\<close> is outside \<open>[0, N)\<close>,
  no pass of the adjacency builder raises an error, and the driver returns the stack
  order \<open>[1, 0]\<close> for the root \<open>1\<close> in both modes.
\<close>

theorem negative_receiver_not_detected:
  "\<not> valid_receivers [- 2, 1]
   \<and> temp_arrays [- 2, 1] = Inr ([1, 1], [0, 1, 2], [0, 1], [1, 1])
   \<and> order_nodes_numba 1000 [- 2, 1] [1] ''recursive'' False = Some (Inr (Stack [1, 0]))
   \<and> order_nodes_numba 1000 [- 2, 1] [1] ''non-recursive'' False = Some (Inr (Stack [1, 0]))"
  by code_simp

section \<open>The write position in the mode \<open>'non-recursive'\<close>\<close>

text \<open>
  C1. The recursive and the iterative builder are to give the same \<open>S\<close> for every forest
  and every list of base-level roots. Evaluated on the forest \<open>[0, 1]\<close> with the roots
  \<open>0, 1\<close>: the mode \<open>'recursive'\<close> returns \<open>[0, 1]\<close>, the mode \<open>'non-recursive'\<close>
  returns \<open>[1, 0]\<close>, because its lambda passes the write position \<open>0\<close> for every root.
\<close>

theorem modes_differ_on_two_roots:
  "forest [0, 1] \<and> base_level [0, 1] 0 \<and> base_level [0, 1] 1
   \<and> order_nodes_numba 1000 [0, 1] [0, 1] ''recursive'' False = Some (Inr (Stack [0, 1]))
   \<and> order_nodes_numba 1000 [0, 1] [0, 1] ''non-recursive'' False = Some (Inr (Stack [1, 0]))"
  by code_simp

text \<open>
  C2. Each root's subtree is to occupy its own block of \<open>S\<close>, the blocks in the order
  of the roots, in both modes. Evaluated on the forest \<open>[0, 1, 1]\<close> with the roots
  \<open>0, 1\<close>, whose subtrees are \<open>[0]\<close> and \<open>[1, 2]\<close>: the mode \<open>'recursive'\<close> returns
  \<open>[0, 1, 2]\<close>, the mode \<open>'non-recursive'\<close> returns \<open>[1, 2, 0]\<close>, the second block
  written over the first from position \<open>0\<close>.
\<close>

theorem second_root_overwrites_first_block:
  "forest [0, 1, 1] \<and> base_level [0, 1, 1] 0 \<and> base_level [0, 1, 1] 1
   \<and> subtree [0, 1, 1] 0 = [0] \<and> subtree [0, 1, 1] 1 = [1, 2]
   \<and> order_nodes_numba 1000 [0, 1, 1] [0, 1] ''recursive'' False = Some (Inr (Stack [0, 1, 2]))
   \<and> order_nodes_numba 1000 [0, 1, 1] [0, 1] ''non-recursive'' False = Some (Inr (Stack [1, 2, 0]))"
  by code_simp

text \<open>
  C3. The returned \<open>S\<close> is to be a permutation of \<open>[0, N)\<close> when the roots are exactly the
  base-level nodes. Evaluated on the forest \<open>[0, 0, 2, 2]\<close> with its base-level nodes
  \<open>0, 2\<close> as roots in the mode \<open>'non-recursive'\<close>: \<open>S = [2, 3, 0, 0]\<close>, where node \<open>1\<close>
  is missing and \<open>0\<close> occurs twice.
\<close>

theorem iterative_order_not_a_permutation:
  "forest [0, 0, 2, 2]
   \<and> filter (base_level [0, 0, 2, 2]) (py_range 0 (int (length [0, 0, 2, 2 :: int]))) = [0, 2]
   \<and> order_nodes_numba 1000 [0, 0, 2, 2] [0, 2] ''non-recursive'' False
        = Some (Inr (Stack [2, 3, 0, 0]))
   \<and> (1 :: int) \<notin> set [2, 3, 0, 0] \<and> \<not> distinct [2, 3, 0, 0 :: int]"
  by code_simp

text \<open>
  C4. Every node with a receiver other than itself is to come after its receiver in
  \<open>S\<close>. Evaluated on the forest \<open>[0, 0, 2]\<close> with its base-level nodes \<open>0, 2\<close> as roots
  in the mode \<open>'non-recursive'\<close>: \<open>S = [2, 1, 0]\<close>, where node \<open>1\<close> is at position \<open>1\<close>
  and its receiver \<open>0\<close> at position \<open>2\<close>.
\<close>

theorem iterative_order_receiver_after_donor:
  "forest [0, 0, 2]
   \<and> filter (base_level [0, 0, 2]) (py_range 0 (int (length [0, 0, 2 :: int]))) = [0, 2]
   \<and> order_nodes_numba 1000 [0, 0, 2] [0, 2] ''non-recursive'' False = Some (Inr (Stack [2, 1, 0]))
   \<and> [0, 0, 2 :: int] ! 1 = 0 \<and> [2, 1, 0 :: int] ! 1 = 1 \<and> [2, 1, 0 :: int] ! 2 = 0"
  by code_simp

section \<open>The worked example\<close>

text \<open>
  C6. On the receivers \<open>[1,4,1,6,4,4,5,4,6,7]\<close> with the single base-level root \<open>4\<close>
  the driver returns \<open>S = [4,1,0,2,5,6,3,8,7,9]\<close> in the mode \<open>'recursive'\<close> and in the
  mode \<open>'non-recursive'\<close>.
\<close>

theorem worked_example_both_modes:
  "order_nodes_numba 1000 [1,4,1,6,4,4,5,4,6,7] [4] ''recursive'' False
     = Some (Inr (Stack [4,1,0,2,5,6,3,8,7,9]))
   \<and> order_nodes_numba 1000 [1,4,1,6,4,4,5,4,6,7] [4] ''non-recursive'' False
     = Some (Inr (Stack [4,1,0,2,5,6,3,8,7,9]))"
  by code_simp

end
